theory Spec2Isabelle
  imports Complex_Main "HOL-Library.AList" "HOL-Library.Char_ord"
    "HOL-Library.List_Lexorder" "HOL-Library.Product_Lexorder"
begin

section \<open>The trie of \<^verbatim>\<open>src/trie.py\<close>\<close>

subsection \<open>Nodes and the index\<close>

text \<open>
  A \<^verbatim>\<open>TrieNode\<close> has a dictionary of children, the flag \<^verbatim>\<open>is_end\<close> and the
  frequency \<^verbatim>\<open>freq\<close>. A Python dictionary keeps its keys in insertion order, and
  \<^verbatim>\<open>items\<close> walks them in that order, so the dictionary is an association list:
  \<open>map_of\<close> is \<^verbatim>\<open>get\<close>, \<open>AList.update\<close> is an assignment to a key (in place for a
  key that is present, at the end for a new one) and \<open>AList.delete\<close> is \<^verbatim>\<open>del\<close>.
  Frequencies are the totally ordered reals; the not-a-number of floating point is not
  modelled. Children are owned by exactly one parent, so the tree is a value and a
  mutation of a node is the rebuilding of the path that leads to it. The counters are
  Python integers, hence \<open>int\<close>. The recursive traversals of this part are total
  functions, without the recursion limit of the interpreter; the queries with the
  limit, and with the index threaded through them, follow in their own part.
\<close>

datatype TrieNode =
  TrieNode (children: "(char \<times> TrieNode) list") (is_end: bool) (freq: real)

definition new_node :: TrieNode where
  "new_node = TrieNode [] False 0"

record Trie =
  root :: TrieNode
  count_words :: int
  count_nodes :: int

definition init :: Trie where
  "init = \<lparr>root = new_node, count_words = 0, count_nodes = 1\<rparr>"

subsection \<open>The walk\<close>

text \<open>
  \<^verbatim>\<open>_walk\<close> follows \<^verbatim>\<open>text\<close> from a node and gives the node it ends at, or nothing
  when a symbol has no child. The path it also returns is the list of the nodes met on
  the way; the functions below that need it recurse along the same symbols instead.
\<close>

fun walk :: "TrieNode \<Rightarrow> string \<Rightarrow> TrieNode option" where
  "walk current [] = Some current"
| "walk current (ch # text) =
     (case map_of (children current) ch of
        None \<Rightarrow> None
      | Some nxt \<Rightarrow> walk nxt text)"

subsection \<open>Insertion\<close>

text \<open>
  \<open>insert_node\<close> is the loop of \<^verbatim>\<open>insert\<close> from a node on: the new node, the number
  of nodes it created and the number of words it added (one when the last node was not
  yet the end of a word).
\<close>

fun insert_node :: "TrieNode \<Rightarrow> string \<Rightarrow> real \<Rightarrow> TrieNode \<times> int \<times> int" where
  "insert_node node [] f =
     (TrieNode (children node) True f, 0, if is_end node then 0 else 1)"
| "insert_node node (ch # word) f =
     (case map_of (children node) ch of
        None \<Rightarrow>
          (let (child, nodes, words) = insert_node new_node word f
           in (TrieNode (AList.update ch child (children node)) (is_end node) (freq node),
               nodes + 1, words))
      | Some nxt \<Rightarrow>
          (let (child, nodes, words) = insert_node nxt word f
           in (TrieNode (AList.update ch child (children node)) (is_end node) (freq node),
               nodes, words)))"

definition insert_trie :: "Trie \<Rightarrow> string \<Rightarrow> real \<Rightarrow> Trie" where
  "insert_trie t word f =
     (let (r, nodes, words) = insert_node (root t) word f
      in \<lparr>root = r, count_words = count_words t + words, count_nodes = count_nodes t + nodes\<rparr>)"

subsection \<open>Removal\<close>

text \<open>
  \<open>prune\<close> is the second half of \<^verbatim>\<open>remove\<close> from a node on: the last node of the
  path loses its flag and its frequency, and on the way back each node of the path is
  deleted from its parent as long as it has no children and ends no word. The result is
  the new node, the number of nodes deleted, and whether the loop is still running
  (\<open>False\<close> after its \<^verbatim>\<open>break\<close>).
\<close>

fun prune :: "TrieNode \<Rightarrow> string \<Rightarrow> TrieNode \<times> int \<times> bool" where
  "prune node [] = (TrieNode (children node) False 0, 0, True)"
| "prune node (ch # word) =
     (case map_of (children node) ch of
        None \<Rightarrow> (node, 0, False)
      | Some nxt \<Rightarrow>
          (let (child, removed, running) = prune nxt word
           in if running \<and> \<not> (children child \<noteq> [] \<or> is_end child)
              then (TrieNode (AList.delete ch (children node)) (is_end node) (freq node),
                    removed + 1, True)
              else (TrieNode (AList.update ch child (children node)) (is_end node) (freq node),
                    removed, False)))"

definition remove_trie :: "Trie \<Rightarrow> string \<Rightarrow> bool \<times> Trie" where
  "remove_trie t word =
     (case walk (root t) word of
        None \<Rightarrow> (False, t)
      | Some node \<Rightarrow>
          if \<not> is_end node then (False, t)
          else (let (r, removed, running) = prune (root t) word
                in (True, \<lparr>root = r, count_words = count_words t - 1,
                           count_nodes = count_nodes t - removed\<rparr>)))"

subsection \<open>Queries\<close>

definition contains :: "Trie \<Rightarrow> string \<Rightarrow> bool" where
  "contains t word =
     (case walk (root t) word of None \<Rightarrow> False | Some node \<Rightarrow> is_end node)"

text \<open>
  The heap of \<^verbatim>\<open>heapq\<close> is a list whose least element, in the order of Python's
  tuples (frequency first, then the word), is at the front. The final sort of
  \<^verbatim>\<open>complete\<close> has the key \<open>(- freq, word)\<close>, which determines the pair, so its
  result depends on the elements of the heap only and the heap is kept here as the
  ascending list of its elements. \<^verbatim>\<open>heappushpop\<close> replaces the least element by the
  new one when the least is smaller, and changes nothing otherwise.
\<close>

type_synonym heap = "(real \<times> string) list"

definition heappush :: "heap \<Rightarrow> real \<times> string \<Rightarrow> heap" where
  "heappush heap pair = insort pair heap"

definition heappushpop :: "heap \<Rightarrow> real \<times> string \<Rightarrow> heap" where
  "heappushpop heap pair =
     (if heap \<noteq> [] \<and> hd heap < pair then insort pair (tl heap) else heap)"

lemma size_member: "(c, child) \<in> set (children node) \<Longrightarrow> size child < size node"
proof (cases node)
  case (TrieNode cs e f)
  have "(c, child) \<in> set cs \<Longrightarrow> size child < Suc (size_list (size_prod (\<lambda>_. 0) size) cs)"
    by (induction cs) auto
  with TrieNode show "(c, child) \<in> set (children node) \<Longrightarrow> size child < size node"
    by simp
qed

lemma size_lookup: "map_of (children node) c = Some child \<Longrightarrow> size child < size node"
  by (rule size_member, erule map_of_SomeD)

function explore :: "int \<Rightarrow> TrieNode \<Rightarrow> string \<Rightarrow> heap \<Rightarrow> heap" where
  "explore k node built heap =
     fold (\<lambda>c h. case map_of (children node) c of
                   None \<Rightarrow> h
                 | Some child \<Rightarrow> explore k child (built @ [c]) h)
       (sort (map fst (children node)))
       (if is_end node
        then (if int (length heap) < k then heappush heap (freq node, built)
              else heappushpop heap (freq node, built))
        else heap)"
  by pat_completeness auto
termination
  by (relation "measure (\<lambda>(k, node, built, heap). size node)")
     (auto dest: size_lookup)

declare explore.simps [simp del]

definition complete_trie :: "Trie \<Rightarrow> string \<Rightarrow> int \<Rightarrow> string list" where
  "complete_trie t prefix k =
     (case walk (root t) prefix of
        None \<Rightarrow> []
      | Some start \<Rightarrow>
          map snd (sort_key (\<lambda>x. (- fst x, snd x)) (explore k start prefix [])))"

function height :: "TrieNode \<Rightarrow> nat" where
  "height node =
     (if children node = [] then 0
      else 1 + Max (set (map (\<lambda>child. height child) (map snd (children node)))))"
  by pat_completeness auto
termination
  by (relation "measure size") (auto dest: size_member)

declare height.simps [simp del]

definition stats :: "Trie \<Rightarrow> int \<times> nat \<times> int" where
  "stats t = (count_words t, height (root t), count_nodes t)"

function dfs :: "TrieNode \<Rightarrow> string \<Rightarrow> (string \<times> real) list" where
  "dfs node sofar =
     (if is_end node then [(sofar, freq node)] else []) @
     concat (map (\<lambda>(c, nxt). dfs nxt (sofar @ [c])) (children node))"
  by pat_completeness auto
termination
  by (relation "measure (\<lambda>(node, sofar). size node)") (auto dest: size_member)

declare dfs.simps [simp del]

definition items :: "Trie \<Rightarrow> (string \<times> real) list" where
  "items t = dfs (root t) []"

subsection \<open>The calls of the public interface\<close>

text \<open>
  A call takes the index and gives a reply and the index after it. The four queries
  assign to no field of the index or of a node, so the index after them is the one
  they were given (\<open>contains_m_state\<close>, \<open>complete_m_state\<close>, \<open>stats_m_state\<close> and
  \<open>items_m_state\<close> below prove it of the queries run step by step).
\<close>

datatype call =
  Insert string real
| Remove string
| Contains string
| Complete string int
| Stats
| Items

datatype reply =
  Unit
| Flag bool
| Words "string list"
| Triple "int \<times> nat \<times> int"
| Pairs "(string \<times> real) list"

fun exec :: "call \<Rightarrow> Trie \<Rightarrow> reply \<times> Trie" where
  "exec (Insert word f) t = (Unit, insert_trie t word f)"
| "exec (Remove word) t = (Flag (fst (remove_trie t word)), snd (remove_trie t word))"
| "exec (Contains word) t = (Flag (contains t word), t)"
| "exec (Complete prefix k) t = (Words (complete_trie t prefix k), t)"
| "exec Stats t = (Triple (stats t), t)"
| "exec Items t = (Pairs (items t), t)"

fun run :: "call list \<Rightarrow> Trie \<Rightarrow> Trie" where
  "run [] t = t"
| "run (c # cs) t = run cs (snd (exec c t))"

subsection \<open>Observations used by the properties\<close>

text \<open>The frequency stored for a word, if the word is stored.\<close>

definition score_at :: "TrieNode \<Rightarrow> string \<Rightarrow> real option" where
  "score_at node word =
     (case walk node word of
        None \<Rightarrow> None
      | Some n \<Rightarrow> if is_end n then Some (freq n) else None)"

definition score :: "Trie \<Rightarrow> string \<Rightarrow> real option" where
  "score t word = score_at (root t) word"

text \<open>The keys of a dictionary are distinct, at every node.\<close>

function wf_node :: "TrieNode \<Rightarrow> bool" where
  "wf_node node =
     (distinct (map fst (children node)) \<and> (\<forall>(c, child) \<in> set (children node). wf_node child))"
  by pat_completeness auto
termination
  by (relation "measure size") (auto dest: size_member)

declare wf_node.simps [simp del]

text \<open>A node is in use when it has a child or ends a word.\<close>

definition in_use :: "TrieNode \<Rightarrow> bool" where
  "in_use node = (children node \<noteq> [] \<or> is_end node)"

text \<open>Every node below the given one is in use.\<close>

function no_dead :: "TrieNode \<Rightarrow> bool" where
  "no_dead node = (\<forall>(c, child) \<in> set (children node). in_use child \<and> no_dead child)"
  by pat_completeness auto
termination
  by (relation "measure size") (auto dest: size_member)

declare no_dead.simps [simp del]

text \<open>The number of nodes of a tree, and the number of them that end a word.\<close>

function nodes :: "TrieNode \<Rightarrow> nat" where
  "nodes node = 1 + sum_list (map (\<lambda>(c, child). nodes child) (children node))"
  by pat_completeness auto
termination
  by (relation "measure size") (auto dest: size_member)

declare nodes.simps [simp del]

function terminals :: "TrieNode \<Rightarrow> nat" where
  "terminals node =
     (if is_end node then 1 else 0) +
     sum_list (map (\<lambda>(c, child). terminals child) (children node))"
  by pat_completeness auto
termination
  by (relation "measure size") (auto dest: size_member)

declare terminals.simps [simp del]

text \<open>The invariant of the index: the dictionaries are well formed, no node below the
  root is out of use, and the two counters count the nodes and the words.\<close>

definition invariant :: "Trie \<Rightarrow> bool" where
  "invariant t =
     (wf_node (root t) \<and> no_dead (root t) \<and>
      count_nodes t = int (nodes (root t)) \<and> count_words t = int (terminals (root t)))"

text \<open>The length of the longest word of a listing, 0 for the empty listing.\<close>

definition longest :: "(string \<times> real) list \<Rightarrow> nat" where
  "longest ps = (if ps = [] then 0 else Max (set (map (\<lambda>(w, f). length w) ps)))"

text \<open>The scenario of the specification: four insertions into the empty index.\<close>

definition scenario :: Trie where
  "scenario =
     run [Insert ''cat'' 5, Insert ''car'' 3, Insert ''cart'' 3, Insert ''dog'' 9] init"

text \<open>A sequence of calls that removes a stored word and misses another.\<close>

definition history :: "call list" where
  "history = [Insert ''cart'' 3, Insert ''car'' 2, Remove ''cart'', Remove ''dog'', Insert ''do'' 1]"

text \<open>Two words with the same frequency, one a prefix of the other.\<close>

definition tied :: Trie where
  "tied = run [Insert ''car'' 3, Insert ''cart'' 3] init"

text \<open>
  One step of the bounded selection of \<^verbatim>\<open>explore\<close>, the pairs \<^verbatim>\<open>explore\<close> meets, in
  the order it meets them, and the \<open>n\<close> greatest elements of a list.
\<close>

definition offer :: "int \<Rightarrow> real \<times> string \<Rightarrow> heap \<Rightarrow> heap" where
  "offer k pair heap =
     (if int (length heap) < k then heappush heap pair else heappushpop heap pair)"

function found :: "TrieNode \<Rightarrow> string \<Rightarrow> (real \<times> string) list" where
  "found node built =
     (if is_end node then [(freq node, built)] else []) @
     concat (map (\<lambda>c. case map_of (children node) c of
                         None \<Rightarrow> []
                       | Some child \<Rightarrow> found child (built @ [c]))
               (sort (map fst (children node))))"
  by pat_completeness auto
termination
  by (relation "measure (\<lambda>(node, built). size node)") (auto dest: size_lookup)

declare found.simps [simp del]

definition top :: "nat \<Rightarrow> (real \<times> string) list \<Rightarrow> (real \<times> string) list" where
  "top n ps = drop (length ps - n) (sort ps)"

text \<open>A word extends a prefix; the sort key of a stored word in the reply of \<^verbatim>\<open>complete\<close>.\<close>

definition extends :: "string \<Rightarrow> string \<Rightarrow> bool" where
  "extends p w = (take (length p) w = p)"

definition rank :: "Trie \<Rightarrow> string \<Rightarrow> real \<times> string" where
  "rank t w = (case score t w of None \<Rightarrow> (0, w) | Some f \<Rightarrow> (- f, w))"

subsection \<open>The queries as the interpreter runs them\<close>

text \<open>
  The four queries once more, with what the interpreter adds to the functions above.
  The index is threaded through every step of a query, and an outcome is the reply or
  the exception together with the index after the call. A reference to a node is the
  path of symbols that leads to it from the root, so that every read of a field of a
  node goes through the index of that moment; a path that leads nowhere is the
  \<^verbatim>\<open>KeyError\<close> of the subscript \<^verbatim>\<open>children[c]\<close>. The bound \<open>d\<close> is the number of nested
  calls of functions of the source that the interpreter still allows when the body of
  the method starts: a call at bound 0 raises \<^verbatim>\<open>RecursionError\<close>, and each of
  \<^verbatim>\<open>_walk\<close>, \<^verbatim>\<open>explore\<close>, \<^verbatim>\<open>height\<close>, the generator inside \<^verbatim>\<open>height\<close> and \<^verbatim>\<open>dfs\<close>
  takes one. Calls of built-in functions are not counted: the bound is what is left for
  the functions of the source. The limit itself is a setting of the interpreter (1000
  unless changed), not a constant of the source.
\<close>

datatype error = RecursionError | KeyError

type_synonym 'a outcome = "(error + 'a) \<times> Trie"

text \<open>
  One step after another: an exception of the first step ends the query, with the index
  of that moment; otherwise the second step starts from the reply and the index of the
  first.
\<close>

definition and_then :: "'a outcome \<Rightarrow> ('a \<Rightarrow> Trie \<Rightarrow> 'b outcome) \<Rightarrow> 'b outcome" where
  "and_then r f = (case r of (Inl e, t) \<Rightarrow> (Inl e, t) | (Inr x, t) \<Rightarrow> f x t)"

text \<open>Following a reference in the index of the moment.\<close>

definition read :: "string \<Rightarrow> Trie \<Rightarrow> TrieNode outcome" where
  "read ref t = (case walk (root t) ref of None \<Rightarrow> (Inl KeyError, t) | Some node \<Rightarrow> (Inr node, t))"

text \<open>
  \<^verbatim>\<open>_walk\<close>: \<open>current\<close> starts at the root, and \<^verbatim>\<open>current.children.get(ch)\<close> reads the
  node that \<open>current\<close> refers to. Its reply is the reference of the last node or
  \<open>None\<close>; the list of pairs it also builds is local and the queries do not use it.
  \<open>call_walk\<close> is the call \<^verbatim>\<open>self._walk(text)\<close> from the body of a method.
\<close>

fun walk_m :: "string \<Rightarrow> string \<Rightarrow> Trie \<Rightarrow> (string option) outcome" where
  "walk_m current [] t = (Inr (Some current), t)"
| "walk_m current (ch # text) t =
     and_then (read current t) (\<lambda>node t1.
       case map_of (children node) ch of
         None \<Rightarrow> (Inr None, t1)
       | Some nxt \<Rightarrow> walk_m (current @ [ch]) text t1)"

definition call_walk :: "nat \<Rightarrow> string \<Rightarrow> Trie \<Rightarrow> (string option) outcome" where
  "call_walk d text t = (if d = 0 then (Inl RecursionError, t) else walk_m [] text t)"

definition contains_m :: "nat \<Rightarrow> Trie \<Rightarrow> string \<Rightarrow> bool outcome" where
  "contains_m d t word =
     and_then (call_walk d word t) (\<lambda>r t1.
       case r of
         None \<Rightarrow> (Inr False, t1)
       | Some node \<Rightarrow> and_then (read node t1) (\<lambda>n t2. (Inr (is_end n), t2)))"

text \<open>
  \<^verbatim>\<open>explore\<close> and \<^verbatim>\<open>complete\<close>. The heap is a local list; \<^verbatim>\<open>sorted(node.children)\<close> is
  taken once, before the loop, and \<^verbatim>\<open>node.children[c]\<close> is evaluated before each call.
  The key function of the final sort and the comprehension take one call each after
  \<^verbatim>\<open>explore\<close> has returned, which a bound that let \<^verbatim>\<open>explore\<close> run allows.
\<close>

fun explore_m :: "nat \<Rightarrow> int \<Rightarrow> string \<Rightarrow> string \<Rightarrow> heap \<Rightarrow> Trie \<Rightarrow> heap outcome" where
  "explore_m 0 k node built heap t = (Inl RecursionError, t)"
| "explore_m (Suc d) k node built heap t =
     and_then (read node t) (\<lambda>n t1.
       fold (\<lambda>c r. and_then r (\<lambda>h t2.
                and_then (read (node @ [c]) t2) (\<lambda>child t3.
                  explore_m d k (node @ [c]) (built @ [c]) h t3)))
         (sort (map fst (children n)))
         (Inr (if is_end n
               then (if int (length heap) < k then heappush heap (freq n, built)
                     else heappushpop heap (freq n, built))
               else heap), t1))"

definition complete_m :: "nat \<Rightarrow> Trie \<Rightarrow> string \<Rightarrow> int \<Rightarrow> (string list) outcome" where
  "complete_m d t prefix k =
     and_then (call_walk d prefix t) (\<lambda>r t1.
       case r of
         None \<Rightarrow> (Inr [], t1)
       | Some start \<Rightarrow>
           and_then (explore_m d k start prefix [] t1) (\<lambda>heap t2.
             (Inr (map snd (sort_key (\<lambda>x. (- fst x, snd x)) heap)), t2)))"

text \<open>
  \<^verbatim>\<open>height\<close> and \<^verbatim>\<open>stats\<close>. \<^verbatim>\<open>max\<close> draws the heights of the children, in the order
  of the dictionary, from a generator, which is one more nested call between a node and
  its children. The tuple of \<^verbatim>\<open>stats\<close> reads \<^verbatim>\<open>_count_words\<close> before the call of
  \<^verbatim>\<open>height\<close> and \<^verbatim>\<open>_count_nodes\<close> after it.
\<close>

fun height_m :: "nat \<Rightarrow> string \<Rightarrow> Trie \<Rightarrow> nat outcome" where
  "height_m 0 node t = (Inl RecursionError, t)"
| "height_m (Suc 0) node t =
     and_then (read node t) (\<lambda>n t1.
       if children n = [] then (Inr 0, t1) else (Inl RecursionError, t1))"
| "height_m (Suc (Suc d)) node t =
     and_then (read node t) (\<lambda>n t1.
       if children n = [] then (Inr 0, t1)
       else and_then
              (fold (\<lambda>c r. and_then r (\<lambda>hs t2.
                       and_then (read (node @ [c]) t2) (\<lambda>child t3.
                         and_then (height_m d (node @ [c]) t3) (\<lambda>h t4. (Inr (hs @ [h]), t4)))))
                 (map fst (children n)) (Inr [], t1))
              (\<lambda>hs t2. (Inr (1 + Max (set hs)), t2)))"

definition stats_m :: "nat \<Rightarrow> Trie \<Rightarrow> (int \<times> nat \<times> int) outcome" where
  "stats_m d t =
     and_then (height_m d [] t) (\<lambda>h t1. (Inr (count_words t, h, count_nodes t1), t1))"

text \<open>\<^verbatim>\<open>dfs\<close> and \<^verbatim>\<open>items\<close>; \<open>collected\<close> is the local list the pairs are appended to.\<close>

fun dfs_m :: "nat \<Rightarrow> string \<Rightarrow> string \<Rightarrow> (string \<times> real) list \<Rightarrow> Trie \<Rightarrow>
    ((string \<times> real) list) outcome" where
  "dfs_m 0 node sofar collected t = (Inl RecursionError, t)"
| "dfs_m (Suc d) node sofar collected t =
     and_then (read node t) (\<lambda>n t1.
       fold (\<lambda>c r. and_then r (\<lambda>col t2.
                and_then (read (node @ [c]) t2) (\<lambda>nxt t3.
                  dfs_m d (node @ [c]) (sofar @ [c]) col t3)))
         (map fst (children n))
         (Inr (if is_end n then collected @ [(sofar, freq n)] else collected), t1))"

definition items_m :: "nat \<Rightarrow> Trie \<Rightarrow> ((string \<times> real) list) outcome" where
  "items_m d t = dfs_m d [] [] [] t"

text \<open>The height of the tree below the end of the walk along a prefix, 0 when the walk fails.\<close>

definition depth_below :: "Trie \<Rightarrow> string \<Rightarrow> nat" where
  "depth_below t prefix = (case walk (root t) prefix of None \<Rightarrow> 0 | Some start \<Rightarrow> height start)"

section \<open>Properties\<close>

subsection \<open>Removal and the walk\<close>


lemma walk_prune:
  "walk node word = Some n \<Longrightarrow>
   (case walk (fst (prune node word)) word of None \<Rightarrow> True | Some m \<Rightarrow> \<not> is_end m)"
proof (induction word arbitrary: node)
  case Nil
  then show ?case by simp
next
  case (Cons ch word)
  then obtain nxt where nxt: "map_of (children node) ch = Some nxt" and w: "walk nxt word = Some n"
    by (auto split: option.splits)
  obtain child removed running where p: "prune nxt word = (child, removed, running)"
    by (cases "prune nxt word") auto
  from Cons.IH [OF w] p have ih: "case walk child word of None \<Rightarrow> True | Some m \<Rightarrow> \<not> is_end m"
    by simp
  show ?case
    using nxt p ih by (simp add: update_conv' delete_conv')
qed

lemma not_contains_after_prune:
  "walk (root t) word = Some n \<Longrightarrow> is_end n \<Longrightarrow> \<not> contains (snd (remove_trie t word)) word"
  using walk_prune [of "root t" word n]
  by (auto simp: contains_def remove_trie_def split: prod.splits option.splits)

lemma remove_flag: "fst (remove_trie t word) = contains t word"
  by (auto simp: remove_trie_def contains_def split: option.splits prod.splits)

lemma remove_miss: "\<not> contains t word \<Longrightarrow> remove_trie t word = (False, t)"
  by (auto simp: remove_trie_def contains_def split: option.splits prod.splits)

subsection \<open>The traversal of \<^verbatim>\<open>complete\<close>\<close>


lemma fold_invariant:
  "P h \<Longrightarrow> (\<And>x h. x \<in> set xs \<Longrightarrow> P h \<Longrightarrow> P (f x h)) \<Longrightarrow> P (fold f xs h)"
  by (induction xs arbitrary: h) auto

lemma length_heappushpop: "length (heappushpop heap pair) = length heap"
  by (cases heap) (auto simp: heappushpop_def)

lemma explore_full: "k \<le> int (length heap) \<Longrightarrow> length (explore k node built heap) = length heap"
proof (induction k node built heap rule: explore.induct)
  case (1 k node built heap)
  let ?P = "\<lambda>h::heap. length h = length heap"
  let ?start = "if is_end node
        then (if int (length heap) < k then heappush heap (freq node, built)
              else heappushpop heap (freq node, built))
        else heap"
  have start: "?P ?start"
    using "1.prems" by (simp add: length_heappushpop)
  have step: "?P (case map_of (children node) c of None \<Rightarrow> h
                 | Some child \<Rightarrow> explore k child (built @ [c]) h)"
    if "c \<in> set (sort (map fst (children node)))" "?P h" for c h
    using that "1.IH" [of c _ h] "1.prems" by (auto split: option.splits)
  have "?P (fold (\<lambda>c h. case map_of (children node) c of None \<Rightarrow> h
                 | Some child \<Rightarrow> explore k child (built @ [c]) h)
          (sort (map fst (children node))) ?start)"
    by (rule fold_invariant [where P = ?P, OF start step])
  then show ?case
    by (subst explore.simps)
qed

lemma explore_nonpos: "k \<le> 0 \<Longrightarrow> explore k node built [] = []"
  using explore_full [of k "[]" node built] by simp

lemma walk_append:
  "walk node (xs @ ys) = (case walk node xs of None \<Rightarrow> None | Some n \<Rightarrow> walk n ys)"
  by (induction xs arbitrary: node) (auto split: option.splits)

lemma explore_none:
  "(\<And>w n. walk node w = Some n \<Longrightarrow> \<not> is_end n) \<Longrightarrow> explore k node built heap = heap"
proof (induction k node built heap rule: explore.induct)
  case (1 k node built heap)
  let ?P = "\<lambda>h::heap. h = heap"
  have "\<not> is_end node"
    using "1.prems" [of "[]" node] by simp
  then have start: "?P (if is_end node
        then (if int (length heap) < k then heappush heap (freq node, built)
              else heappushpop heap (freq node, built))
        else heap)"
    by simp
  have step: "?P (case map_of (children node) c of None \<Rightarrow> h
                 | Some child \<Rightarrow> explore k child (built @ [c]) h)"
    if "c \<in> set (sort (map fst (children node)))" "?P h" for c h
  proof (cases "map_of (children node) c")
    case None
    with that show ?thesis by simp
  next
    case (Some child)
    have "\<not> is_end n" if "walk child w = Some n" for w n
      using "1.prems" [of "c # w" n] Some that by simp
    with "1.IH" [OF that(1) Some] Some that(2) show ?thesis by simp
  qed
  have "?P (fold (\<lambda>c h. case map_of (children node) c of None \<Rightarrow> h
                 | Some child \<Rightarrow> explore k child (built @ [c]) h)
          (sort (map fst (children node))) (if is_end node
        then (if int (length heap) < k then heappush heap (freq node, built)
              else heappushpop heap (freq node, built))
        else heap))"
    by (rule fold_invariant [where P = ?P, OF start step])
  then show ?case
    by (subst explore.simps)
qed

subsection \<open>Insertion keeps the invariants\<close>


lemma wf_node_simp [simp, code]:
  "wf_node (TrieNode cs e f) = (distinct (map fst cs) \<and> (\<forall>(c, child) \<in> set cs. wf_node child))"
  by (subst wf_node.simps) simp

lemma no_dead_simp [simp, code]:
  "no_dead (TrieNode cs e f) = (\<forall>(c, child) \<in> set cs. in_use child \<and> no_dead child)"
  by (subst no_dead.simps) simp

lemma nodes_simp [simp, code]:
  "nodes (TrieNode cs e f) = 1 + sum_list (map (\<lambda>(c, child). nodes child) cs)"
  by (subst nodes.simps) simp

lemma terminals_simp [simp, code]:
  "terminals (TrieNode cs e f) =
     (if e then 1 else 0) + sum_list (map (\<lambda>(c, child). terminals child) cs)"
  by (subst terminals.simps) simp

lemma set_update_subset: "set (AList.update c v cs) \<subseteq> insert (c, v) (set cs)"
  by (induction cs) auto

lemma set_delete_subset: "set (AList.delete c cs) \<subseteq> set cs"
  by (auto simp: AList.delete_eq)

lemma sum_update_some:
  fixes h :: "'b \<Rightarrow> nat"
  shows "map_of cs c = Some old \<Longrightarrow>
    sum_list (map (\<lambda>(c, x). h x) (AList.update c v cs)) + h old =
    sum_list (map (\<lambda>(c, x). h x) cs) + h v"
  by (induction cs) (auto split: if_splits)

lemma sum_update_none:
  fixes h :: "'b \<Rightarrow> nat"
  shows "map_of cs c = None \<Longrightarrow>
    sum_list (map (\<lambda>(c, x). h x) (AList.update c v cs)) = sum_list (map (\<lambda>(c, x). h x) cs) + h v"
  by (induction cs) (auto split: if_splits)

lemma sum_delete:
  fixes h :: "'b \<Rightarrow> nat"
  shows "distinct (map fst cs) \<Longrightarrow> map_of cs c = Some old \<Longrightarrow>
    sum_list (map (\<lambda>(c, x). h x) (AList.delete c cs)) + h old = sum_list (map (\<lambda>(c, x). h x) cs)"
proof (induction cs)
  case Nil
  then show ?case by simp
next
  case (Cons p cs)
  show ?case
  proof (cases "fst p = c")
    case True
    with Cons.prems have "c \<notin> fst ` set cs" "snd p = old" by auto
    then have "AList.delete c cs = cs" by simp
    with True \<open>snd p = old\<close> show ?thesis by (cases p) simp
  next
    case False
    with Cons show ?thesis by (cases p) auto
  qed
qed

lemma new_node_facts [simp]:
  "wf_node new_node" "no_dead new_node" "nodes new_node = 1" "terminals new_node = 0"
  "children new_node = []" "\<not> is_end new_node"
  by (simp_all add: new_node_def)

lemma node_collapse: "TrieNode (children node) (is_end node) (freq node) = node"
  by (cases node) simp

lemma insert_node_in_use: "in_use (fst (insert_node node word f))"
  by (cases word) (auto simp: in_use_def split: option.splits prod.splits)

lemma insert_node_Cons:
  "fst (insert_node node (ch # word) f) =
     TrieNode
       (AList.update ch
          (fst (insert_node (case map_of (children node) ch of None \<Rightarrow> new_node | Some nxt \<Rightarrow> nxt)
                  word f))
          (children node))
       (is_end node) (freq node)"
  by (simp split: option.splits prod.splits)

lemma ball_update:
  "\<forall>(c, child) \<in> set cs. P child \<Longrightarrow> P v \<Longrightarrow> \<forall>(c, child) \<in> set (AList.update k v cs). P child"
  using set_update_subset [of k v cs] by auto

lemma ball_delete:
  "\<forall>(c, child) \<in> set cs. P child \<Longrightarrow> \<forall>(c, child) \<in> set (AList.delete k cs). P child"
  using set_delete_subset [of k cs] by auto

lemma ball_lookup:
  "\<forall>(c, child) \<in> set cs. P child \<Longrightarrow> map_of cs k = Some v \<Longrightarrow> P v"
  by (auto dest: map_of_SomeD)

lemma insert_node_wf: "wf_node node \<Longrightarrow> wf_node (fst (insert_node node word f))"
proof (induction word arbitrary: node)
  case Nil
  then show ?case by (cases node) simp
next
  case (Cons ch word)
  obtain cs e g where node: "node = TrieNode cs e g" by (cases node)
  let ?nxt = "case map_of cs ch of None \<Rightarrow> new_node | Some nxt \<Rightarrow> nxt"
  from Cons.prems node have cs: "distinct (map fst cs)" "\<forall>(c, child) \<in> set cs. wf_node child"
    by simp_all
  have "wf_node ?nxt"
    using ball_lookup [OF cs(2)] by (simp split: option.splits)
  then have "wf_node (fst (insert_node ?nxt word f))" by (rule Cons.IH)
  with cs show ?case
    unfolding insert_node_Cons node
    by (simp add: distinct_update ball_update [where P = wf_node])
qed

lemma insert_node_no_dead: "no_dead node \<Longrightarrow> no_dead (fst (insert_node node word f))"
proof (induction word arbitrary: node)
  case Nil
  then show ?case by (cases node) simp
next
  case (Cons ch word)
  obtain cs e g where node: "node = TrieNode cs e g" by (cases node)
  let ?nxt = "case map_of cs ch of None \<Rightarrow> new_node | Some nxt \<Rightarrow> nxt"
  from Cons.prems node have cs: "\<forall>(c, child) \<in> set cs. in_use child \<and> no_dead child"
    by simp
  have "no_dead ?nxt"
    using ball_lookup [OF cs] by (simp split: option.splits)
  then have "no_dead (fst (insert_node ?nxt word f))" by (rule Cons.IH)
  then have "in_use (fst (insert_node ?nxt word f)) \<and> no_dead (fst (insert_node ?nxt word f))"
    by (simp add: insert_node_in_use)
  then have "\<forall>(c, child) \<in> set (AList.update ch (fst (insert_node ?nxt word f)) cs).
               in_use child \<and> no_dead child"
    by (rule ball_update [where P = "\<lambda>n. in_use n \<and> no_dead n", OF cs])
  then show ?case
    unfolding insert_node_Cons node by simp
qed

lemma insert_node_nodes:
  "int (nodes (fst (insert_node node word f))) = int (nodes node) + fst (snd (insert_node node word f))"
proof (induction word arbitrary: node)
  case Nil
  then show ?case by (cases node) simp
next
  case (Cons ch word)
  obtain cs e g where node: "node = TrieNode cs e g" by (cases node)
  show ?case
  proof (cases "map_of cs ch")
    case None
    obtain child n w where r: "insert_node new_node word f = (child, n, w)"
      by (cases "insert_node new_node word f") auto
    with Cons.IH [of new_node] have "int (nodes child) = 1 + n" by simp
    with None r node show ?thesis
      by (simp add: sum_update_none [where h = nodes])
  next
    case (Some nxt)
    obtain child n w where r: "insert_node nxt word f = (child, n, w)"
      by (cases "insert_node nxt word f") auto
    with Cons.IH [of nxt] have "int (nodes child) = int (nodes nxt) + n" by simp
    with Some r node sum_update_some [where h = nodes, OF Some, of child] show ?thesis
      by simp
  qed
qed

lemma insert_node_terminals:
  "int (terminals (fst (insert_node node word f))) =
   int (terminals node) + snd (snd (insert_node node word f))"
proof (induction word arbitrary: node)
  case Nil
  then show ?case by (cases node) simp
next
  case (Cons ch word)
  obtain cs e g where node: "node = TrieNode cs e g" by (cases node)
  show ?case
  proof (cases "map_of cs ch")
    case None
    obtain child n w where r: "insert_node new_node word f = (child, n, w)"
      by (cases "insert_node new_node word f") auto
    with Cons.IH [of new_node] have "int (terminals child) = w" by simp
    with None r node show ?thesis
      by (simp add: sum_update_none [where h = terminals])
  next
    case (Some nxt)
    obtain child n w where r: "insert_node nxt word f = (child, n, w)"
      by (cases "insert_node nxt word f") auto
    with Cons.IH [of nxt] have "int (terminals child) = int (terminals nxt) + w" by simp
    with Some r node sum_update_some [where h = terminals, OF Some, of child] show ?thesis
      by simp
  qed
qed

subsection \<open>Removal keeps the invariants\<close>

lemma leaf_counts:
  "children node = [] \<Longrightarrow> nodes node = 1 \<and> terminals node = (if is_end node then 1 else 0)"
  by (cases node) simp

lemma prune_invariants:
  assumes "walk node word = Some n" "is_end n" "wf_node node" "no_dead node"
    and "prune node word = (r, removed, running)"
  shows "wf_node r \<and> no_dead r \<and> (\<not> running \<longrightarrow> in_use r) \<and>
         int (nodes r) = int (nodes node) - removed \<and> terminals r + 1 = terminals node"
  using assms
proof (induction word arbitrary: node r removed running)
  case Nil
  then show ?case by (cases node) auto
next
  case (Cons ch word)
  obtain cs e g where node: "node = TrieNode cs e g" by (cases node)
  from Cons.prems(1) node obtain nxt where nxt: "map_of cs ch = Some nxt" "walk nxt word = Some n"
    by (auto split: option.splits)
  from Cons.prems(3,4) node have cs: "distinct (map fst cs)"
    "\<forall>(c, child) \<in> set cs. wf_node child" "\<forall>(c, child) \<in> set cs. in_use child \<and> no_dead child"
    by simp_all
  have wf_nxt: "wf_node nxt" by (rule ball_lookup [OF cs(2) nxt(1)])
  have nd_nxt: "no_dead nxt" using ball_lookup [OF cs(3) nxt(1)] by simp
  obtain child k going where p: "prune nxt word = (child, k, going)"
    by (cases "prune nxt word") auto
  from Cons.IH [OF nxt(2) Cons.prems(2) wf_nxt nd_nxt p]
  have ih: "wf_node child" "no_dead child" "\<not> going \<longrightarrow> in_use child"
    "int (nodes child) = int (nodes nxt) - k" "terminals child + 1 = terminals nxt"
    by simp_all
  show ?case
  proof (cases "going \<and> \<not> (children child \<noteq> [] \<or> is_end child)")
    case True
    with Cons.prems(5) node nxt(1) p
    have r: "r = TrieNode (AList.delete ch cs) e g" "removed = k + 1" "running"
      by simp_all
    from True leaf_counts [of child] have leaf: "nodes child = 1" "terminals child = 0" by simp_all
    have "sum_list (map (\<lambda>(c, x). nodes x) (AList.delete ch cs)) + nodes nxt =
          sum_list (map (\<lambda>(c, x). nodes x) cs)"
      by (rule sum_delete [OF cs(1) nxt(1)])
    moreover have "sum_list (map (\<lambda>(c, x). terminals x) (AList.delete ch cs)) + terminals nxt =
          sum_list (map (\<lambda>(c, x). terminals x) cs)"
      by (rule sum_delete [OF cs(1) nxt(1)])
    ultimately show ?thesis
      using r node cs ih(4,5) leaf
        ball_delete [where P = wf_node, OF cs(2), of ch]
        ball_delete [where P = "\<lambda>n. in_use n \<and> no_dead n", OF cs(3), of ch]
      by (simp add: distinct_delete)
  next
    case False
    with Cons.prems(5) node nxt(1) p
    have r: "r = TrieNode (AList.update ch child cs) e g" "removed = k" "\<not> running"
      by auto
    from False ih(3) have use: "in_use child" by (auto simp: in_use_def)
    have "sum_list (map (\<lambda>(c, x). nodes x) (AList.update ch child cs)) + nodes nxt =
          sum_list (map (\<lambda>(c, x). nodes x) cs) + nodes child"
      by (rule sum_update_some [OF nxt(1)])
    moreover have "sum_list (map (\<lambda>(c, x). terminals x) (AList.update ch child cs)) + terminals nxt =
          sum_list (map (\<lambda>(c, x). terminals x) cs) + terminals child"
      by (rule sum_update_some [OF nxt(1)])
    moreover have "\<forall>(c, x) \<in> set (AList.update ch child cs). in_use x \<and> no_dead x"
      by (rule ball_update [where P = "\<lambda>n. in_use n \<and> no_dead n", OF cs(3)]) (simp add: use ih(2))
    ultimately show ?thesis
      using r node cs ih(1,4,5) ball_update [where P = wf_node, OF cs(2) ih(1), of ch]
      by (simp add: distinct_update in_use_def)
  qed
qed

lemma invariant_init: "invariant init"
  by (simp add: invariant_def init_def)

lemma invariant_insert:
  assumes "invariant t"
  shows "invariant (insert_trie t word f)"
proof -
  obtain r n w where p: "insert_node (root t) word f = (r, n, w)"
    by (cases "insert_node (root t) word f") auto
  from assms have "wf_node (root t)" "no_dead (root t)" by (simp_all add: invariant_def)
  with p insert_node_wf [of "root t" word f] insert_node_no_dead [of "root t" word f]
  have "wf_node r" "no_dead r" by simp_all
  moreover from p insert_node_nodes [of "root t" word f] insert_node_terminals [of "root t" word f]
  have "int (nodes r) = int (nodes (root t)) + n" "int (terminals r) = int (terminals (root t)) + w"
    by simp_all
  ultimately show ?thesis
    using assms p by (simp add: invariant_def insert_trie_def)
qed

lemma invariant_remove: "invariant t \<Longrightarrow> invariant (snd (remove_trie t word))"
proof (cases "walk (root t) word")
  case None
  assume "invariant t"
  with None show ?thesis by (simp add: remove_trie_def)
next
  case (Some n)
  assume inv: "invariant t"
  show ?thesis
  proof (cases "is_end n")
    case False
    with Some inv show ?thesis by (simp add: remove_trie_def)
  next
    case True
    obtain r removed running where p: "prune (root t) word = (r, removed, running)"
      by (cases "prune (root t) word") auto
    from inv have "wf_node (root t)" "no_dead (root t)" by (simp_all add: invariant_def)
    from prune_invariants [OF Some True this p] inv Some True p
    show ?thesis by (simp add: remove_trie_def invariant_def)
  qed
qed

lemma invariant_exec: "invariant t \<Longrightarrow> invariant (snd (exec c t))"
  by (cases c) (simp_all add: invariant_insert invariant_remove)

lemma invariant_run: "invariant t \<Longrightarrow> invariant (run cs t)"
  by (induction cs arbitrary: t) (simp_all add: invariant_exec)

subsection \<open>The listing of \<^verbatim>\<open>items\<close>\<close>

lemma dfs_node [code]:
  "dfs (TrieNode cs e f) sofar =
     (if e then [(sofar, f)] else []) @ concat (map (\<lambda>(c, nxt). dfs nxt (sofar @ [c])) cs)"
  by (subst dfs.simps) simp

lemma sum_list_cong: "(\<And>x. x \<in> set xs \<Longrightarrow> f x = g x) \<Longrightarrow> sum_list (map f xs) = sum_list (map g xs)"
  by (induction xs) auto

lemma length_dfs: "length (dfs node sofar) = terminals node"
proof (induction node sofar rule: dfs.induct)
  case (1 node sofar)
  have "sum_list (map (\<lambda>x. length (case x of (c, nxt) \<Rightarrow> dfs nxt (sofar @ [c]))) (children node)) =
        sum_list (map (\<lambda>(c, child). terminals child) (children node))"
    by (rule sum_list_cong) (auto simp: "1.IH")
  then show ?case
    by (subst dfs.simps, subst terminals.simps) (simp add: length_concat comp_def)
qed

lemma dfs_words: "(w, f) \<in> set (dfs node sofar) \<Longrightarrow> \<exists>v. w = sofar @ v"
proof (induction node sofar rule: dfs.induct)
  case (1 node sofar)
  from "1.prems" consider "w = sofar" 
    | c nxt where "(c, nxt) \<in> set (children node)" "(w, f) \<in> set (dfs nxt (sofar @ [c]))"
    by (subst (asm) dfs.simps) (auto split: if_splits)
  then show ?case
  proof cases
    case 1
    then show ?thesis by simp
  next
    case 2
    with "1.IH" [of "(c, nxt)" c nxt] show ?thesis by auto
  qed
qed

lemma filter_concat_one:
  assumes "distinct (map fst cs)"
    and "\<And>c' x. (c', x) \<in> set cs \<Longrightarrow> c' \<noteq> c \<Longrightarrow> filter P (F c' x) = []"
  shows "filter P (concat (map (\<lambda>(c', x). F c' x) cs)) =
         (case map_of cs c of None \<Rightarrow> [] | Some x \<Rightarrow> filter P (F c x))"
  using assms
proof (induction cs)
  case Nil
  then show ?case by simp
next
  case (Cons p cs)
  obtain c' x where p: "p = (c', x)" by (cases p)
  show ?case
  proof (cases "c' = c")
    case True
    with Cons.prems(1) p have "c \<notin> fst ` set cs" by auto
    then have none: "map_of cs c = None" by (simp add: map_of_eq_None_iff)
    have "filter P (concat (map (\<lambda>(c', x). F c' x) cs)) = []"
      using Cons.IH Cons.prems none by auto
    with True p show ?thesis by simp
  next
    case False
    have "filter P (F c' x) = []" using Cons.prems(2) [of c' x] p False by simp
    moreover have "filter P (concat (map (\<lambda>(c', x). F c' x) cs)) =
         (case map_of cs c of None \<Rightarrow> [] | Some x \<Rightarrow> filter P (F c x))"
      using Cons.IH Cons.prems by auto
    ultimately show ?thesis using p False by simp
  qed
qed

lemma filter_concat_none:
  assumes "\<And>x. x \<in> set xs \<Longrightarrow> filter P (F x) = []"
  shows "filter P (concat (map F xs)) = []"
  using assms by (induction xs) auto

lemma dfs_filter:
  "wf_node node \<Longrightarrow>
   filter (\<lambda>p. fst p = sofar @ v) (dfs node sofar) =
     (case score_at node v of None \<Rightarrow> [] | Some f \<Rightarrow> [(sofar @ v, f)])"
proof (induction v arbitrary: node sofar)
  case Nil
  obtain cs e g where node: "node = TrieNode cs e g" by (cases node)
  have "filter (\<lambda>p. fst p = sofar) (concat (map (\<lambda>(c, nxt). dfs nxt (sofar @ [c])) cs)) = []"
  proof (rule filter_concat_none)
    fix x assume "x \<in> set cs"
    obtain c nxt where x: "x = (c, nxt)" by (cases x)
    have "fst p \<noteq> sofar" if "p \<in> set (dfs nxt (sofar @ [c]))" for p
      using dfs_words [of "fst p" "snd p" nxt "sofar @ [c]"] that by auto
    then show "filter (\<lambda>p. fst p = sofar) (case x of (c, nxt) \<Rightarrow> dfs nxt (sofar @ [c])) = []"
      using x by (auto simp: filter_empty_conv)
  qed
  with node show ?case by (simp add: dfs_node score_at_def)
next
  case (Cons c v)
  obtain cs e g where node: "node = TrieNode cs e g" by (cases node)
  from Cons.prems node have cs: "distinct (map fst cs)" "\<forall>(c, child) \<in> set cs. wf_node child"
    by simp_all
  let ?P = "\<lambda>p. fst p = sofar @ c # v"
  have other: "filter ?P (dfs x (sofar @ [c'])) = []" if "(c', x) \<in> set cs" "c' \<noteq> c" for c' x
  proof -
    have "fst p \<noteq> sofar @ c # v" if "p \<in> set (dfs x (sofar @ [c']))" for p
      using dfs_words [of "fst p" "snd p" x "sofar @ [c']"] that \<open>c' \<noteq> c\<close> by auto
    then show ?thesis by (auto simp: filter_empty_conv)
  qed
  have "filter ?P (concat (map (\<lambda>(c', x). dfs x (sofar @ [c'])) cs)) =
        (case map_of cs c of None \<Rightarrow> [] | Some x \<Rightarrow> filter ?P (dfs x (sofar @ [c])))"
    by (rule filter_concat_one [OF cs(1)]) (rule other)
  also have "\<dots> = (case score_at node (c # v) of None \<Rightarrow> [] | Some f \<Rightarrow> [(sofar @ c # v, f)])"
  proof (cases "map_of cs c")
    case None
    with node show ?thesis by (simp add: score_at_def)
  next
    case (Some nxt)
    have "wf_node nxt" by (rule ball_lookup [OF cs(2) Some])
    from Cons.IH [OF this, of "sofar @ [c]"] Some node show ?thesis
      by (simp add: score_at_def split: option.splits)
  qed
  finally show ?case using node by (simp add: dfs_node)
qed

lemma items_filter:
  "wf_node (root t) \<Longrightarrow>
   filter (\<lambda>p. fst p = word) (items t) = (case score t word of None \<Rightarrow> [] | Some f \<Rightarrow> [(word, f)])"
  using dfs_filter [of "root t" "[]" word] by (simp add: items_def score_def split: option.splits)

lemma items_member:
  assumes "wf_node (root t)"
  shows "(word, f) \<in> set (items t) \<longleftrightarrow> score t word = Some f"
proof -
  have "(word, f) \<in> set (items t) \<longleftrightarrow> (word, f) \<in> set (filter (\<lambda>p. fst p = word) (items t))"
    by auto
  then show ?thesis
    unfolding items_filter [OF assms] by (auto split: option.splits)
qed

lemma contains_score: "contains t word \<longleftrightarrow> score t word \<noteq> None"
  by (simp add: contains_def score_def score_at_def split: option.splits)

subsection \<open>The height and the longest word\<close>

lemma height_leaf: "children node = [] \<Longrightarrow> height node = 0"
  by (subst height.simps) simp

lemma height_inner:
  "children node \<noteq> [] \<Longrightarrow> height node = 1 + Max (height ` snd ` set (children node))"
  by (subst height.simps) (simp add: image_image)

lemma height_child: "(c, child) \<in> set (children node) \<Longrightarrow> height child < height node"
proof -
  assume a: "(c, child) \<in> set (children node)"
  then have "children node \<noteq> []" by auto
  moreover have "height child \<le> Max (height ` snd ` set (children node))"
    using a by (intro Max_ge) (auto intro!: image_eqI [where x = "(c, child)"] simp: image_image)
  ultimately show ?thesis by (simp add: height_inner)
qed

lemma dfs_length_le: "(w, f) \<in> set (dfs node sofar) \<Longrightarrow> length w \<le> length sofar + height node"
proof (induction node sofar rule: dfs.induct)
  case (1 node sofar)
  from "1.prems" consider "w = sofar" 
    | c nxt where "(c, nxt) \<in> set (children node)" "(w, f) \<in> set (dfs nxt (sofar @ [c]))"
    by (subst (asm) dfs.simps) (auto split: if_splits)
  then show ?case
  proof cases
    case 1
    then show ?thesis by simp
  next
    case 2
    with "1.IH" [of "(c, nxt)" c nxt] height_child [of c nxt node] show ?thesis by simp
  qed
qed

lemma dfs_child_subset:
  "(c, nxt) \<in> set (children node) \<Longrightarrow> set (dfs nxt (sofar @ [c])) \<subseteq> set (dfs node sofar)"
  by (subst (2) dfs.simps) auto

lemma dfs_longest:
  "no_dead node \<Longrightarrow> in_use node \<Longrightarrow>
   \<exists>(w, f) \<in> set (dfs node sofar). length w = length sofar + height node"
proof (induction node sofar rule: dfs.induct)
  case (1 node sofar)
  show ?case
  proof (cases "children node = []")
    case True
    with "1.prems"(2) have "is_end node" by (simp add: in_use_def)
    then have "(sofar, freq node) \<in> set (dfs node sofar)"
      by (subst dfs.simps) simp
    with True show ?thesis by (auto simp: height_leaf)
  next
    case False
    then have "Max (height ` snd ` set (children node)) \<in> height ` snd ` set (children node)"
      by (intro Max_in) auto
    then obtain c nxt where nxt: "(c, nxt) \<in> set (children node)"
      "height nxt = Max (height ` snd ` set (children node))"
      by force
    from "1.prems"(1) nxt(1) have "in_use nxt" "no_dead nxt"
      by (subst (asm) no_dead.simps, auto)+
    from "1.IH" [OF nxt(1) refl this(2,1)]
    obtain w f where "(w, f) \<in> set (dfs nxt (sofar @ [c]))" "length w = length sofar + 1 + height nxt"
      by auto
    with dfs_child_subset [OF nxt(1), of sofar] nxt(2) False show ?thesis
      by (auto simp: height_inner)
  qed
qed

lemma height_longest:
  assumes "no_dead (root t)"
  shows "height (root t) = longest (items t)"
proof (cases "in_use (root t)")
  case True
  from dfs_longest [OF assms True, of "[]"]
  obtain w f where wf: "(w, f) \<in> set (items t)" "length w = height (root t)"
    by (auto simp: items_def)
  then have ne: "items t \<noteq> []" by auto
  have "Max (set (map (\<lambda>(w, f). length w) (items t))) = height (root t)"
  proof (rule Max_eqI)
    show "finite (set (map (\<lambda>(w, f). length w) (items t)))" by simp
    show "y \<le> height (root t)" if "y \<in> set (map (\<lambda>(w, f). length w) (items t))" for y
      using that dfs_length_le [of _ _ "root t" "[]"] by (auto simp: items_def)
    show "height (root t) \<in> set (map (\<lambda>(w, f). length w) (items t))"
      using wf by force
  qed
  with ne show ?thesis by (simp add: longest_def)
next
  case False
  then have "children (root t) = []" "\<not> is_end (root t)" by (simp_all add: in_use_def)
  then have "items t = []" "height (root t) = 0"
    by (simp_all add: items_def height_leaf dfs.simps [of "root t"])
  then show ?thesis by (simp add: longest_def)
qed

subsection \<open>The stored frequencies after an insertion\<close>

lemma walk_new_node: "walk new_node word = (if word = [] then Some new_node else None)"
  by (cases word) simp_all

lemma score_at_new_node: "score_at new_node word = None"
  by (simp add: score_at_def walk_new_node)

lemma score_at_Nil: "score_at node [] = (if is_end node then Some (freq node) else None)"
  by (simp add: score_at_def)

lemma score_at_Cons:
  "score_at node (c # w) = (case map_of (children node) c of None \<Rightarrow> None | Some nxt \<Rightarrow> score_at nxt w)"
  by (simp add: score_at_def split: option.splits)

lemma score_at_insert_node:
  "score_at (fst (insert_node node word f)) w = (if w = word then Some f else score_at node w)"
proof (induction word arbitrary: node w)
  case Nil
  show ?case by (cases w) (simp_all add: score_at_Nil score_at_Cons)
next
  case (Cons ch word)
  let ?nxt = "case map_of (children node) ch of None \<Rightarrow> new_node | Some nxt \<Rightarrow> nxt"
  show ?case
  proof (cases w)
    case Nil
    then show ?thesis unfolding insert_node_Cons by (simp add: score_at_Nil)
  next
    case (Cons c v)
    show ?thesis
    proof (cases "c = ch")
      case True
      have "score_at ?nxt v = score_at node (ch # v)"
        by (simp add: score_at_Cons score_at_new_node split: option.splits)
      with Cons True Cons.IH [of ?nxt v] show ?thesis
        unfolding insert_node_Cons by (simp add: score_at_Cons update_conv')
    next
      case False
      with Cons show ?thesis
        unfolding insert_node_Cons by (simp add: score_at_Cons update_conv')
    qed
  qed
qed

lemma insert_node_present:
  "walk node word = Some n \<Longrightarrow> snd (insert_node node word f) = (0, if is_end n then 0 else 1)"
proof (induction word arbitrary: node)
  case Nil
  then show ?case by simp
next
  case (Cons ch word)
  then obtain nxt where nxt: "map_of (children node) ch = Some nxt" "walk nxt word = Some n"
    by (auto split: option.splits)
  from Cons.IH [OF nxt(2)] nxt(1) show ?case
    by (auto split: prod.splits)
qed

lemma insert_trie_parts:
  "insert_trie t word f =
     \<lparr>root = fst (insert_node (root t) word f),
      count_words = count_words t + snd (snd (insert_node (root t) word f)),
      count_nodes = count_nodes t + fst (snd (insert_node (root t) word f))\<rparr>"
  by (simp add: insert_trie_def split: prod.splits)

lemma score_insert_trie:
  "score (insert_trie t word f) w = (if w = word then Some f else score t w)"
  using score_at_insert_node [of "root t" word f w]
  by (simp add: score_def insert_trie_parts)

lemma counters_insert_present:
  assumes "contains t word"
  shows "count_words (insert_trie t word f) = count_words t \<and>
         count_nodes (insert_trie t word f) = count_nodes t"
proof -
  from assms obtain n where n: "walk (root t) word = Some n" "is_end n"
    by (auto simp: contains_def split: option.splits)
  from insert_node_present [OF n(1), of f] n(2) show ?thesis
    by (simp add: insert_trie_parts)
qed

lemma root_insert_trie: "root (insert_trie t word f) = fst (insert_node (root t) word f)"
  by (simp add: insert_trie_parts)

subsection \<open>What \<^verbatim>\<open>complete\<close> selects\<close>

lemma fold_concat_map: "fold f (concat (map g xs)) h = fold (\<lambda>x. fold f (g x)) xs h"
  by (induction xs arbitrary: h) auto

lemma explore_found: "explore k node built heap = fold (offer k) (found node built) heap"
proof (induction k node built heap rule: explore.induct)
  case (1 k node built heap)
  let ?start = "if is_end node
        then (if int (length heap) < k then heappush heap (freq node, built)
              else heappushpop heap (freq node, built))
        else heap"
  have start: "fold (offer k) (if is_end node then [(freq node, built)] else []) heap = ?start"
    by (simp add: offer_def)
  have step: "(case map_of (children node) c of None \<Rightarrow> h
                 | Some child \<Rightarrow> explore k child (built @ [c]) h) =
              fold (offer k) (case map_of (children node) c of None \<Rightarrow> []
                 | Some child \<Rightarrow> found child (built @ [c])) h"
    if "c \<in> set (sort (map fst (children node)))" for c h
    using that "1.IH" [of c _ h] by (auto split: option.splits)
  have "explore k node built heap =
        fold (\<lambda>c h. case map_of (children node) c of None \<Rightarrow> h
                 | Some child \<Rightarrow> explore k child (built @ [c]) h)
          (sort (map fst (children node))) ?start"
    by (subst explore.simps) simp
  also have "\<dots> = fold (\<lambda>c. fold (offer k) (case map_of (children node) c of None \<Rightarrow> []
                 | Some child \<Rightarrow> found child (built @ [c])))
          (sort (map fst (children node))) ?start"
    by (rule fold_cong) (simp_all add: step)
  also have "\<dots> = fold (offer k) (found node built) heap"
    by (subst (2) found.simps) (simp only: fold_append fold_concat_map comp_apply start)
  finally show ?case .
qed

lemma drop_insort:
  fixes x :: "'a::linorder"
  shows "sorted ys \<Longrightarrow>
    drop (Suc m) (insort x ys) =
      (if m < length ys \<and> ys ! m < x then insort x (drop (Suc m) ys) else drop m ys)"
proof (induction ys arbitrary: m)
  case Nil
  then show ?case by simp
next
  case (Cons y ys)
  show ?case
  proof (cases m)
    case 0
    then show ?thesis by auto
  next
    case (Suc n)
    show ?thesis
    proof (cases "x \<le> y")
      case True
      have "\<not> ys ! n < x" if "n < length ys"
        using Cons.prems True that by (auto simp: not_less intro: order_trans)
      with True Suc show ?thesis by auto
    next
      case False
      with Cons Suc show ?thesis by simp
    qed
  qed
qed

lemma offer_top:
  "offer k x (top (nat k) ps) = top (nat k) (x # ps)"
proof -
  let ?ys = "sort ps"
  let ?n = "length ps"
  have s: "sorted ?ys" by simp
  show ?thesis
  proof (cases "int ?n < k")
    case True
    then have "?n - nat k = 0" "Suc ?n - nat k = 0" by auto
    with True show ?thesis
      by (simp add: offer_def top_def heappush_def)
  next
    case False
    then have le: "nat k \<le> ?n" by auto
    then have suc: "Suc ?n - nat k = Suc (?n - nat k)" by simp
    from le False have len: "\<not> int (length (top (nat k) ps)) < k"
      by (auto simp: top_def)
    have "top (nat k) (x # ps) = drop (Suc (?n - nat k)) (insort x ?ys)"
      by (simp add: top_def suc del: drop_Suc_Cons)
    also have "\<dots> = (if ?n - nat k < length ?ys \<and> ?ys ! (?n - nat k) < x
                      then insort x (drop (Suc (?n - nat k)) ?ys) else drop (?n - nat k) ?ys)"
      by (rule drop_insort [OF s])
    also have "\<dots> = heappushpop (top (nat k) ps) x"
      by (auto simp: heappushpop_def top_def hd_drop_conv_nth drop_Suc tl_drop)
    finally show ?thesis using len by (simp add: offer_def)
  qed
qed

lemma fold_offer_top: "fold (offer k) ps [] = top (nat k) (rev ps)"
proof (induction ps rule: rev_induct)
  case Nil
  show ?case by (simp add: top_def)
next
  case (snoc x ps)
  then show ?case by (simp add: offer_top)
qed

lemma complete_trie_top:
  "complete_trie t prefix k =
     (case walk (root t) prefix of
        None \<Rightarrow> []
      | Some start \<Rightarrow>
          map snd (sort_key (\<lambda>x. (- fst x, snd x)) (top (nat k) (rev (found start prefix)))))"
  by (simp add: complete_trie_def explore_found fold_offer_top split: option.splits)

lemma found_member:
  "(f, w) \<in> set (found node built) \<longleftrightarrow> (\<exists>v. w = built @ v \<and> score_at node v = Some f)"
proof (induction node built arbitrary: f w rule: found.induct)
  case (1 node built)
  let ?sub = "\<lambda>c. case map_of (children node) c of None \<Rightarrow> []
                 | Some child \<Rightarrow> found child (built @ [c])"
  have mem: "(f, w) \<in> set (found node built) \<longleftrightarrow>
        (is_end node \<and> f = freq node \<and> w = built) \<or>
        (\<exists>c \<in> set (map fst (children node)). (f, w) \<in> set (?sub c))"
    by (subst found.simps) auto
  show ?case
  proof
    assume "(f, w) \<in> set (found node built)"
    with mem consider "is_end node" "f = freq node" "w = built"
      | c where "c \<in> set (map fst (children node))" "(f, w) \<in> set (?sub c)"
      by blast
    then show "\<exists>v. w = built @ v \<and> score_at node v = Some f"
    proof cases
      case 1
      then have "w = built @ [] \<and> score_at node [] = Some f" by (simp add: score_at_Nil)
      then show ?thesis by blast
    next
      case 2
      then obtain child where child: "map_of (children node) c = Some child"
        "(f, w) \<in> set (found child (built @ [c]))"
        by (cases "map_of (children node) c") auto
      from 2(1) have "c \<in> set (sort (map fst (children node)))" by simp
      from "1.IH" [OF this child(1)] child(2)
      obtain v where "w = (built @ [c]) @ v" "score_at child v = Some f" by blast
      with child(1) have "w = built @ c # v \<and> score_at node (c # v) = Some f"
        by (simp add: score_at_Cons)
      then show ?thesis by blast
    qed
  next
    assume "\<exists>v. w = built @ v \<and> score_at node v = Some f"
    then obtain v where v: "w = built @ v" "score_at node v = Some f" by blast
    show "(f, w) \<in> set (found node built)"
    proof (cases v)
      case Nil
      with v mem show ?thesis by (simp add: score_at_Nil split: if_splits)
    next
      case (Cons c u)
      with v(2) obtain child where child: "map_of (children node) c = Some child"
        "score_at child u = Some f"
        by (auto simp: score_at_Cons split: option.splits)
      from child(1) have c: "c \<in> set (map fst (children node))"
        by (auto dest: map_of_SomeD intro: rev_image_eqI)
      then have "c \<in> set (sort (map fst (children node)))" by simp
      from "1.IH" [OF this child(1)] child(2) have "(f, (built @ [c]) @ u) \<in> set (found child (built @ [c]))"
        by blast
      with v(1) Cons child(1) have "(f, w) \<in> set (?sub c)" by simp
      with c mem show ?thesis by blast
    qed
  qed
qed

lemma found_stored:
  assumes "walk (root t) p = Some start"
  shows "(f, w) \<in> set (found start p) \<longleftrightarrow> extends p w \<and> score t w = Some f"
proof -
  have sc: "score_at start v = score t (p @ v)" for v
    using assms by (simp add: score_def score_at_def walk_append)
  show ?thesis
  proof
    assume "(f, w) \<in> set (found start p)"
    then obtain v where "w = p @ v" "score_at start v = Some f"
      by (auto simp: found_member)
    then show "extends p w \<and> score t w = Some f"
      by (simp add: extends_def sc)
  next
    assume a: "extends p w \<and> score t w = Some f"
    then have "w = p @ drop (length p) w"
      by (metis append_take_drop_id extends_def)
    with a sc [of "drop (length p) w"] show "(f, w) \<in> set (found start p)"
      by (auto simp: found_member)
  qed
qed

lemma top_subset: "set (top n ps) \<subseteq> set ps"
  using set_drop_subset [of "length ps - n" "sort ps"] by (simp add: top_def)

lemma top_greatest:
  assumes "x \<in> set ps" "x \<notin> set (top n ps)" "y \<in> set (top n ps)"
  shows "x \<le> y"
proof -
  let ?m = "length ps - n"
  have "sorted (take ?m (sort ps) @ drop ?m (sort ps))" by simp
  then have le: "\<forall>a \<in> set (take ?m (sort ps)). \<forall>b \<in> set (drop ?m (sort ps)). a \<le> b"
    unfolding sorted_append by blast
  have "set (sort ps) = set (take ?m (sort ps)) \<union> set (drop ?m (sort ps))"
    by (metis append_take_drop_id set_append)
  with assms(1,2) have "x \<in> set (take ?m (sort ps))"
    by (auto simp: top_def)
  with le assms(3) show ?thesis by (auto simp: top_def)
qed

lemma length_top: "length (top n ps) = min n (length ps)"
  by (auto simp: top_def)

lemma sum_list_sort:
  fixes h :: "'a::linorder \<Rightarrow> nat"
  shows "distinct ks \<Longrightarrow> sum_list (map h (sort ks)) = sum_list (map h ks)"
  by (simp add: sum_list_distinct_conv_sum_set)

lemma sum_list_lookup:
  fixes h :: "'b \<Rightarrow> nat"
  assumes "distinct (map fst cs)"
  shows "sum_list (map (\<lambda>c. case map_of cs c of None \<Rightarrow> 0 | Some x \<Rightarrow> h x) (map fst cs)) =
         sum_list (map (\<lambda>(c, x). h x) cs)"
proof -
  have "(case map_of cs (fst p) of None \<Rightarrow> 0 | Some x \<Rightarrow> h x) = (case p of (c, x) \<Rightarrow> h x)"
    if "p \<in> set cs" for p
  proof -
    obtain c x where p: "p = (c, x)" by (cases p)
    with that assms have "map_of cs c = Some x" by (simp add: map_of_is_SomeI)
    with p show ?thesis by simp
  qed
  then show ?thesis
    unfolding map_map comp_def by (intro sum_list_cong) simp
qed

lemma length_found: "wf_node node \<Longrightarrow> length (found node built) = terminals node"
proof (induction node built rule: found.induct)
  case (1 node built)
  from "1.prems" have d: "distinct (map fst (children node))"
    and sub: "\<forall>(c, child) \<in> set (children node). wf_node child"
    by (subst (asm) wf_node.simps, simp)+
  let ?len = "\<lambda>c. case map_of (children node) c of None \<Rightarrow> 0 | Some x \<Rightarrow> terminals x"
  have "length (case map_of (children node) c of None \<Rightarrow> []
                 | Some child \<Rightarrow> found child (built @ [c])) = ?len c"
    if "c \<in> set (sort (map fst (children node)))" for c
  proof (cases "map_of (children node) c")
    case None
    then show ?thesis by simp
  next
    case (Some child)
    have "wf_node child" by (rule ball_lookup [OF sub Some])
    with "1.IH" [OF that Some] Some show ?thesis by simp
  qed
  then have "sum_list (map (\<lambda>c. length (case map_of (children node) c of None \<Rightarrow> []
                 | Some child \<Rightarrow> found child (built @ [c]))) (sort (map fst (children node)))) =
        sum_list (map ?len (sort (map fst (children node))))"
    by (intro sum_list_cong) simp
  also have "\<dots> = sum_list (map ?len (map fst (children node)))"
    by (rule sum_list_sort [OF d])
  also have "\<dots> = sum_list (map (\<lambda>(c, x). terminals x) (children node))"
    by (rule sum_list_lookup [OF d])
  finally show ?case
    by (subst found.simps, subst terminals.simps) (simp add: length_concat comp_def)
qed

lemma dfs_extends:
  "wf_node node \<Longrightarrow>
   filter (\<lambda>q. extends (sofar @ p) (fst q)) (dfs node sofar) =
     (case walk node p of None \<Rightarrow> [] | Some n \<Rightarrow> dfs n (sofar @ p))"
proof (induction p arbitrary: node sofar)
  case Nil
  have "extends sofar (fst q)" if "q \<in> set (dfs node sofar)" for q
    using dfs_words [of "fst q" "snd q" node sofar] that by (auto simp: extends_def)
  then show ?case by simp
next
  case (Cons c p)
  obtain cs e g where node: "node = TrieNode cs e g" by (cases node)
  from Cons.prems node have cs: "distinct (map fst cs)" "\<forall>(c, child) \<in> set cs. wf_node child"
    by simp_all
  let ?P = "\<lambda>q. extends (sofar @ c # p) (fst q)"
  have other: "filter ?P (dfs x (sofar @ [c'])) = []" if "(c', x) \<in> set cs" "c' \<noteq> c" for c' x
  proof -
    have "\<not> ?P q" if "q \<in> set (dfs x (sofar @ [c']))" for q
      using dfs_words [of "fst q" "snd q" x "sofar @ [c']"] that \<open>c' \<noteq> c\<close>
      by (auto simp: extends_def)
    then show ?thesis by (auto simp: filter_empty_conv)
  qed
  have "filter ?P (concat (map (\<lambda>(c', x). dfs x (sofar @ [c'])) cs)) =
        (case map_of cs c of None \<Rightarrow> [] | Some x \<Rightarrow> filter ?P (dfs x (sofar @ [c])))"
    by (rule filter_concat_one [OF cs(1)]) (rule other)
  also have "\<dots> = (case walk node (c # p) of None \<Rightarrow> [] | Some n \<Rightarrow> dfs n (sofar @ c # p))"
  proof (cases "map_of cs c")
    case None
    with node show ?thesis by simp
  next
    case (Some nxt)
    have "wf_node nxt" by (rule ball_lookup [OF cs(2) Some])
    from Cons.IH [OF this, of "sofar @ [c]"] Some node show ?thesis
      by (simp split: option.splits)
  qed
  finally show ?case using node by (simp add: dfs_node extends_def)
qed

lemma count_extending:
  assumes "wf_node (root t)"
  shows "length (filter (\<lambda>q. extends p (fst q)) (items t)) =
         (case walk (root t) p of None \<Rightarrow> 0 | Some n \<Rightarrow> terminals n)"
  using dfs_extends [OF assms, of "[]" p]
  by (simp add: items_def length_dfs split: option.splits)

lemma walk_wf: "wf_node node \<Longrightarrow> walk node p = Some n \<Longrightarrow> wf_node n"
proof (induction p arbitrary: node)
  case Nil
  then show ?case by simp
next
  case (Cons c p)
  from Cons.prems(2) obtain nxt where nxt: "map_of (children node) c = Some nxt" "walk nxt p = Some n"
    by (auto split: option.splits)
  from Cons.prems(1) have "\<forall>(c, child) \<in> set (children node). wf_node child"
    by (subst (asm) wf_node.simps) simp
  then have "wf_node nxt" by (rule ball_lookup [OF _ nxt(1)])
  then show ?case using nxt(2) by (rule Cons.IH)
qed

lemma length_complete_trie:
  assumes "wf_node (root t)"
  shows "length (complete_trie t p k) =
         min (nat k) (length (filter (\<lambda>q. extends p (fst q)) (items t)))"
proof (cases "walk (root t) p")
  case None
  then show ?thesis by (simp add: complete_trie_def count_extending [OF assms])
next
  case (Some start)
  have "wf_node start" by (rule walk_wf [OF assms Some])
  then have "length (found start p) = terminals start" by (rule length_found)
  with Some show ?thesis
    by (simp add: complete_trie_top length_top count_extending [OF assms])
qed

lemma complete_trie_pairs:
  assumes "walk (root t) p = Some start"
  shows "complete_trie t p k = map snd (sort_key (\<lambda>x. (- fst x, snd x)) (top (nat k) (rev (found start p))))"
    and "x \<in> set (top (nat k) (rev (found start p))) \<Longrightarrow> extends p (snd x) \<and> score t (snd x) = Some (fst x)"
proof -
  show "complete_trie t p k = map snd (sort_key (\<lambda>x. (- fst x, snd x)) (top (nat k) (rev (found start p))))"
    using assms by (simp add: complete_trie_top)
  assume "x \<in> set (top (nat k) (rev (found start p)))"
  with top_subset [of "nat k" "rev (found start p)"] have "(fst x, snd x) \<in> set (found start p)"
    by auto
  then show "extends p (snd x) \<and> score t (snd x) = Some (fst x)"
    by (simp only: found_stored [OF assms])
qed

lemma sorted_complete_trie: "sorted (map (rank t) (complete_trie t p k))"
proof (cases "walk (root t) p")
  case None
  then show ?thesis by (simp add: complete_trie_def)
next
  case (Some start)
  let ?kept = "sort_key (\<lambda>x. (- fst x, snd x)) (top (nat k) (rev (found start p)))"
  have "rank t (snd x) = (- fst x, snd x)" if "x \<in> set ?kept" for x
    using complete_trie_pairs(2) [OF Some, of x k] that by (simp add: rank_def)
  then have "map (rank t) (map snd ?kept) = map (\<lambda>x. (- fst x, snd x)) ?kept"
    by simp
  moreover have "sorted (map (\<lambda>x. (- fst x, snd x)) ?kept)"
    by (rule sorted_sort_key)
  ultimately show ?thesis
    by (simp only: complete_trie_pairs(1) [OF Some])
qed

lemma complete_trie_keeps_greatest:
  assumes "extends p w" "score t w = Some f" "w \<notin> set (complete_trie t p k)"
    and "w' \<in> set (complete_trie t p k)"
  shows "\<exists>f'. score t w' = Some f' \<and> (f < f' \<or> f = f' \<and> w < w')"
proof (cases "walk (root t) p")
  case None
  with assms(4) show ?thesis by (simp add: complete_trie_def)
next
  case (Some start)
  let ?ps = "rev (found start p)"
  from assms(4) obtain f' where kept: "(f', w') \<in> set (top (nat k) ?ps)"
    by (auto simp: complete_trie_pairs(1) [OF Some])
  from assms(1,2) have "(f, w) \<in> set ?ps"
    by (simp add: found_stored [OF Some])
  moreover from assms(3) have "(f, w) \<notin> set (top (nat k) ?ps)"
    by (force simp: complete_trie_pairs(1) [OF Some])
  ultimately have "(f, w) \<le> (f', w')"
    using kept by (rule top_greatest)
  moreover from assms(3,4) have "w \<noteq> w'" by blast
  ultimately have "f < f' \<or> f = f' \<and> w < w'"
    by (auto simp: less_eq_prod_def)
  moreover from complete_trie_pairs(2) [OF Some kept] have "score t w' = Some f'" by simp
  ultimately show ?thesis by blast
qed

subsection \<open>The queries leave the index as it is\<close>

lemma read_state: "snd (read ref t) = t"
  by (simp add: read_def split: option.splits)

lemma and_then_state:
  "snd r = t \<Longrightarrow> (\<And>x. snd (f x t) = t) \<Longrightarrow> snd (and_then r f) = t"
  by (cases r) (auto simp: and_then_def split: sum.splits)

lemma fold_state:
  "snd r = t \<Longrightarrow> (\<And>c r. c \<in> set cs \<Longrightarrow> snd r = t \<Longrightarrow> snd (g c r) = t) \<Longrightarrow>
   snd (fold g cs r) = t"
  by (rule fold_invariant [where P = "\<lambda>r. snd r = t"])

lemma walk_m_state: "snd (walk_m current word t) = t"
proof (induction word arbitrary: current)
  case Nil
  show ?case by simp
next
  case (Cons ch word)
  show ?case
    unfolding walk_m.simps
    by (rule and_then_state) (simp_all add: read_state Cons.IH split: option.splits)
qed

lemma call_walk_state: "snd (call_walk d text t) = t"
  by (simp add: call_walk_def walk_m_state)

lemma contains_m_state: "snd (contains_m d t word) = t"
  unfolding contains_m_def
proof (rule and_then_state)
  show "snd (call_walk d word t) = t" by (rule call_walk_state)
  show "snd (case x of None \<Rightarrow> (Inr False, t)
          | Some node \<Rightarrow> and_then (read node t) (\<lambda>n t2. (Inr (is_end n), t2))) = t" for x
    by (cases x) (simp_all add: and_then_state read_state)
qed

lemma explore_m_state: "snd (explore_m d k node built heap t) = t"
proof (induction d arbitrary: node built heap)
  case 0
  show ?case by simp
next
  case (Suc d)
  show ?case
    unfolding explore_m.simps
  proof (rule and_then_state [OF read_state], rule fold_state)
    fix n :: TrieNode and c :: char and r :: "heap outcome"
    assume r: "snd r = t"
    show "snd (and_then r (\<lambda>h t2. and_then (read (node @ [c]) t2)
                 (\<lambda>child. explore_m d k (node @ [c]) (built @ [c]) h))) = t"
      by (intro and_then_state r read_state Suc.IH)
  qed simp
qed

lemma complete_m_state: "snd (complete_m d t prefix k) = t"
  unfolding complete_m_def
proof (rule and_then_state [OF call_walk_state])
  fix r :: "string option"
  show "snd (case r of None \<Rightarrow> (Inr [], t)
          | Some start \<Rightarrow> and_then (explore_m d k start prefix [] t)
              (\<lambda>heap t2. (Inr (map snd (sort_key (\<lambda>x. (- fst x, snd x)) heap)), t2))) = t"
    by (cases r) (simp_all add: and_then_state explore_m_state)
qed

lemma height_m_state: "snd (height_m d node t) = t"
proof (induction d arbitrary: node rule: less_induct)
  case (less d)
  have "d = 0 \<or> d = Suc 0 \<or> d = Suc (Suc (d - 2))" by arith
  then consider "d = 0" | "d = Suc 0" | e where "d = Suc (Suc e)"
    by blast
  then show ?case
  proof cases
    case 1
    then show ?thesis by simp
  next
    case 2
    show ?thesis
      unfolding 2 height_m.simps by (rule and_then_state [OF read_state]) simp
  next
    case 3
    have ih: "snd (height_m e ref t) = t" for ref
      using less.IH [of e ref] 3 by simp
    show ?thesis
      unfolding 3 height_m.simps
    proof (rule and_then_state [OF read_state])
      fix n :: TrieNode
      have "snd (fold (\<lambda>c r. and_then r (\<lambda>hs t2. and_then (read (node @ [c]) t2)
                (\<lambda>child t3. and_then (height_m e (node @ [c]) t3) (\<lambda>h t4. (Inr (hs @ [h]), t4)))))
              (map fst (children n)) (Inr [], t)) = t"
      proof (rule fold_state)
        fix c :: char and r :: "(nat list) outcome"
        assume r: "snd r = t"
        show "snd (and_then r (\<lambda>hs t2. and_then (read (node @ [c]) t2)
                (\<lambda>child t3. and_then (height_m e (node @ [c]) t3) (\<lambda>h t4. (Inr (hs @ [h]), t4))))) = t"
          by (intro and_then_state r read_state ih snd_conv)
      qed simp
      then show "snd (if children n = [] then (Inr 0, t)
           else and_then (fold (\<lambda>c r. and_then r (\<lambda>hs t2. and_then (read (node @ [c]) t2)
                (\<lambda>child t3. and_then (height_m e (node @ [c]) t3) (\<lambda>h t4. (Inr (hs @ [h]), t4)))))
              (map fst (children n)) (Inr [], t)) (\<lambda>hs t2. (Inr (1 + Max (set hs)), t2))) = t"
        by (simp add: and_then_state)
    qed
  qed
qed

lemma stats_m_state: "snd (stats_m d t) = t"
  unfolding stats_m_def by (rule and_then_state [OF height_m_state]) simp

lemma dfs_m_state: "snd (dfs_m d node sofar collected t) = t"
proof (induction d arbitrary: node sofar collected)
  case 0
  show ?case by simp
next
  case (Suc d)
  show ?case
    unfolding dfs_m.simps
  proof (rule and_then_state [OF read_state], rule fold_state)
    fix c :: char and r :: "((string \<times> real) list) outcome"
    assume r: "snd r = t"
    show "snd (and_then r (\<lambda>col t2. and_then (read (node @ [c]) t2)
                 (\<lambda>nxt. dfs_m d (node @ [c]) (sofar @ [c]) col))) = t"
      by (intro and_then_state r read_state Suc.IH)
  qed simp
qed

lemma items_m_state: "snd (items_m d t) = t"
  by (simp add: items_m_def dfs_m_state)

subsection \<open>The replies of the queries within the bound\<close>

lemma read_found: "walk (root t) ref = Some n \<Longrightarrow> read ref t = (Inr n, t)"
  by (simp add: read_def)

lemma and_then_Inr [simp]: "and_then (Inr x, t) f = f x t"
  by (simp add: and_then_def)

lemma and_then_Inl [simp]: "and_then (Inl e, t) f = (Inl e, t)"
  by (simp add: and_then_def)

lemma walk_m_reply:
  "walk (root t) current = Some n \<Longrightarrow>
   walk_m current word t =
     (Inr (case walk n word of None \<Rightarrow> None | Some m \<Rightarrow> Some (current @ word)), t)"
proof (induction word arbitrary: current n)
  case Nil
  show ?case by simp
next
  case (Cons ch word)
  show ?case
  proof (cases "map_of (children n) ch")
    case None
    with Cons.prems show ?thesis by (simp add: read_found)
  next
    case (Some nxt)
    with Cons.prems have "walk (root t) (current @ [ch]) = Some nxt"
      by (simp add: walk_append)
    from Cons.IH [OF this] Some Cons.prems show ?thesis
      by (simp add: read_found split: option.splits)
  qed
qed

lemma call_walk_reply:
  "0 < d \<Longrightarrow>
   call_walk d word t =
     (Inr (case walk (root t) word of None \<Rightarrow> None | Some m \<Rightarrow> Some word), t)"
  using walk_m_reply [of t "[]" "root t" word] by (simp add: call_walk_def split: option.splits)

lemma contains_m_reply: "0 < d \<Longrightarrow> contains_m d t word = (Inr (contains t word), t)"
  by (simp add: contains_m_def call_walk_reply contains_def read_found split: option.splits)

lemma fold_replies:
  "(\<And>c h. c \<in> set cs \<Longrightarrow> gm c (Inr h, t) = (Inr (g c h), t)) \<Longrightarrow>
   fold gm cs (Inr h0, t) = (Inr (fold g cs h0), t)"
  by (induction cs arbitrary: h0) simp_all

lemma lookup_key: "c \<in> set (map fst cs) \<Longrightarrow> \<exists>child. map_of cs c = Some child \<and> (c, child) \<in> set cs"
  by (induction cs) auto

lemma explore_m_reply:
  "walk (root t) node = Some n \<Longrightarrow> height n < d \<Longrightarrow>
   explore_m d k node built heap t = (Inr (explore k n built heap), t)"
proof (induction d arbitrary: node n built heap)
  case 0
  then show ?case by simp
next
  case (Suc d)
  let ?gm = "\<lambda>c r. and_then r (\<lambda>h t2. and_then (read (node @ [c]) t2)
                 (\<lambda>child t3. explore_m d k (node @ [c]) (built @ [c]) h t3))"
  let ?g = "\<lambda>c h. case map_of (children n) c of None \<Rightarrow> h
                 | Some child \<Rightarrow> explore k child (built @ [c]) h"
  have step: "?gm c (Inr h, t) = (Inr (?g c h), t)"
    if "c \<in> set (sort (map fst (children n)))" for c h
  proof -
    from that obtain child where child: "map_of (children n) c = Some child"
      "(c, child) \<in> set (children n)"
      using lookup_key [of c "children n"] by auto
    with Suc.prems(1) have w: "walk (root t) (node @ [c]) = Some child"
      by (simp add: walk_append)
    from height_child [OF child(2)] Suc.prems(2) have "height child < d" by simp
    from Suc.IH [OF w this] child(1) w show ?thesis
      by (simp add: read_found)
  qed
  show ?case
    unfolding explore_m.simps read_found [OF Suc.prems(1)] and_then_Inr
    by (subst fold_replies [where g = ?g, OF step]) (simp_all add: explore.simps [of k n])
qed

lemma fold_fixed: "(\<And>c. gm c bad = bad) \<Longrightarrow> fold gm cs bad = bad"
  by (induction cs) simp_all

lemma fold_raises:
  assumes "c \<in> set cs" and "Q r0"
    and "\<And>c' r. c' \<in> set cs \<Longrightarrow> Q r \<Longrightarrow> Q (gm c' r)"
    and "\<And>r. Q r \<Longrightarrow> gm c r = bad"
    and "\<And>c'. gm c' bad = bad"
  shows "fold gm cs r0 = bad"
proof -
  from assms(1) obtain xs ys where cs: "cs = xs @ c # ys"
    by (auto dest: split_list)
  have "Q (fold gm xs r0)"
    by (rule fold_invariant [where P = Q, OF assms(2)]) (simp add: assms(3) cs)
  then have "gm c (fold gm xs r0) = bad" by (rule assms(4))
  then show ?thesis
    by (simp add: cs fold_fixed [of gm bad, OF assms(5)])
qed

lemma wf_lookup:
  "wf_node n \<Longrightarrow> (c, child) \<in> set (children n) \<Longrightarrow> map_of (children n) c = Some child \<and> wf_node child"
  by (subst (asm) wf_node.simps) (auto simp: map_of_is_SomeI)

lemma explore_m_bound:
  "wf_node n \<Longrightarrow> walk (root t) node = Some n \<Longrightarrow>
   explore_m d k node built heap t =
     (if height n < d then Inr (explore k n built heap) else Inl RecursionError, t)"
proof (induction d arbitrary: node n built heap)
  case 0
  then show ?case by simp
next
  case (Suc d)
  show ?case
  proof (cases "height n < Suc d")
    case True
    with explore_m_reply [OF Suc.prems(2) True] show ?thesis by simp
  next
    case False
    let ?gm = "\<lambda>c r. and_then r (\<lambda>h t2. and_then (read (node @ [c]) t2)
                   (\<lambda>child t3. explore_m d k (node @ [c]) (built @ [c]) h t3))"
    let ?Q = "\<lambda>r :: heap outcome. snd r = t \<and> fst r \<noteq> Inl KeyError"
    let ?bad = "(Inl RecursionError, t) :: heap outcome"
    let ?keys = "sort (map fst (children n))"
    have known: "?gm c (Inr h, t) =
        (if height child < d then Inr (explore k child (built @ [c]) h) else Inl RecursionError, t)"
      if "(c, child) \<in> set (children n)" for c child h
    proof -
      from wf_lookup [OF Suc.prems(1) that] have child: "map_of (children n) c = Some child"
        "wf_node child" by simp_all
      with Suc.prems(2) have w: "walk (root t) (node @ [c]) = Some child"
        by (simp add: walk_append)
      from Suc.IH [OF child(2) w] w show ?thesis by (simp add: read_found)
    qed
    have raised: "?gm c ?bad = ?bad" for c by simp
    have keep: "?Q (?gm c r)" if key: "c \<in> set ?keys" and q: "?Q r" for c r
    proof -
      from key obtain child where child: "(c, child) \<in> set (children n)"
        using lookup_key [of c "children n"] by auto
      obtain x where r: "r = (x, t)" using q by (cases r) auto
      show ?thesis
      proof (cases x)
        case (Inl e)
        with q r show ?thesis by simp
      next
        case (Inr h)
        with r known [OF child, of h] show ?thesis by simp
      qed
    qed
    from False have ne: "children n \<noteq> []"
      by (auto simp: height_leaf)
    then have "Max (height ` snd ` set (children n)) \<in> height ` snd ` set (children n)"
      by (intro Max_in) auto
    then obtain c child where child: "(c, child) \<in> set (children n)"
      "height child = Max (height ` snd ` set (children n))"
      by force
    with False ne have deep: "\<not> height child < d"
      by (simp add: height_inner)
    have c: "c \<in> set ?keys" using child(1) by force
    have hit: "?gm c r = ?bad" if q: "?Q r" for r
    proof -
      obtain x where r: "r = (x, t)" using q by (cases r) auto
      show ?thesis
      proof (cases x)
        case (Inl e)
        with q r have "e = RecursionError" by (cases e) auto
        with Inl r show ?thesis by simp
      next
        case (Inr h)
        with r known [OF child(1), of h] deep show ?thesis by simp
      qed
    qed
    let ?r0 = "(Inr (if is_end n
               then (if int (length heap) < k then heappush heap (freq n, built)
                     else heappushpop heap (freq n, built))
               else heap), t) :: heap outcome"
    have "fold ?gm ?keys ?r0 = ?bad"
    proof (rule fold_raises [where Q = ?Q and gm = ?gm and c = c])
      show "c \<in> set ?keys" by (rule c)
      show "?Q ?r0" by simp
      show "?Q (?gm c' r)" if "c' \<in> set ?keys" "?Q r" for c' r
        using that by (rule keep)
      show "?gm c r = ?bad" if "?Q r" for r
        using that by (rule hit)
      show "?gm c' ?bad = ?bad" for c'
        by (rule raised)
    qed
    with False show ?thesis
      unfolding explore_m.simps read_found [OF Suc.prems(2)] and_then_Inr by simp
  qed
qed

lemma complete_m_reply:
  assumes "depth_below t prefix < d"
  shows "complete_m d t prefix k = (Inr (complete_trie t prefix k), t)"
proof -
  from assms have d: "0 < d" by simp
  show ?thesis
  proof (cases "walk (root t) prefix")
    case None
    then show ?thesis
      by (simp add: complete_m_def call_walk_reply [OF d] complete_trie_def)
  next
    case (Some start)
    with assms have "height start < d" by (simp add: depth_below_def)
    from explore_m_reply [OF Some this] Some show ?thesis
      by (simp add: complete_m_def call_walk_reply [OF d] complete_trie_def)
  qed
qed

lemma complete_m_raises:
  assumes "wf_node (root t)" "walk (root t) prefix = Some start" "d \<le> height start"
  shows "complete_m d t prefix k = (Inl RecursionError, t)"
proof (cases "d = 0")
  case True
  then show ?thesis by (simp add: complete_m_def call_walk_def)
next
  case False
  then have d: "0 < d" by simp
  have "wf_node start" by (rule walk_wf [OF assms(1,2)])
  from explore_m_bound [OF this assms(2)] assms(3)
  have "explore_m d k prefix prefix [] t = (Inl RecursionError, t)" by simp
  with assms(2) show ?thesis
    by (simp add: complete_m_def call_walk_reply [OF d])
qed

lemma height_node:
  "height (TrieNode cs e f) = (if cs = [] then 0 else 1 + Max (height ` snd ` set cs))"
  by (simp add: height_leaf height_inner)

lemma height_insert_new: "height (fst (insert_node new_node word f)) = length word"
proof (induction word)
  case Nil
  show ?case by (simp add: new_node_def height_node)
next
  case (Cons ch word)
  then show ?case
    unfolding insert_node_Cons by (simp add: height_node)
qed

lemma complete_trie_empty:
  assumes "k \<le> 0 \<or> walk (root t) prefix = None \<or> (\<forall>w. \<not> contains t (prefix @ w))"
  shows "complete_trie t prefix k = []"
proof (cases "walk (root t) prefix")
  case None
  then show ?thesis by (simp add: complete_trie_def)
next
  case (Some start)
  from assms Some consider "k \<le> 0" | "\<forall>w. \<not> contains t (prefix @ w)" by auto
  then have "explore k start prefix [] = []"
  proof cases
    case 1
    then show ?thesis by (rule explore_nonpos)
  next
    case 2
    have "\<not> is_end n" if "walk start w = Some n" for w n
      using 2 [rule_format, of w] Some that by (simp add: contains_def walk_append)
    then show ?thesis by (rule explore_none)
  qed
  with Some show ?thesis by (simp add: complete_trie_def)
qed

lemma fold_keys_replies:
  "(\<And>c x h. (c, x) \<in> set cs \<Longrightarrow> gm c (Inr h, t) = (Inr (h @ F c x), t)) \<Longrightarrow>
   fold gm (map fst cs) (Inr h0, t) = (Inr (h0 @ concat (map (\<lambda>(c, x). F c x) cs)), t)"
proof (induction cs arbitrary: h0)
  case Nil
  show ?case by simp
next
  case (Cons p cs)
  obtain c x where p: "p = (c, x)" by (cases p)
  have "gm c (Inr h0, t) = (Inr (h0 @ F c x), t)"
    by (rule Cons.prems) (simp add: p)
  moreover have "fold gm (map fst cs) (Inr (h0 @ F c x), t) =
      (Inr ((h0 @ F c x) @ concat (map (\<lambda>(c, x). F c x) cs)), t)"
    by (rule Cons.IH) (simp add: Cons.prems)
  ultimately show ?case by (simp add: p)
qed

lemma dfs_m_reply:
  "wf_node n \<Longrightarrow> walk (root t) node = Some n \<Longrightarrow> height n < d \<Longrightarrow>
   dfs_m d node sofar collected t = (Inr (collected @ dfs n sofar), t)"
proof (induction d arbitrary: node n sofar collected)
  case 0
  then show ?case by simp
next
  case (Suc d)
  let ?gm = "\<lambda>c r. and_then r (\<lambda>col t2. and_then (read (node @ [c]) t2)
                 (\<lambda>nxt t3. dfs_m d (node @ [c]) (sofar @ [c]) col t3))"
  have step: "?gm c (Inr h, t) = (Inr (h @ dfs x (sofar @ [c])), t)"
    if cx: "(c, x) \<in> set (children n)" for c x h
  proof -
    from wf_lookup [OF Suc.prems(1) cx] have x: "map_of (children n) c = Some x" "wf_node x"
      by simp_all
    with Suc.prems(2) have w: "walk (root t) (node @ [c]) = Some x"
      by (simp add: walk_append)
    from height_child [OF cx] Suc.prems(3) have "height x < d" by simp
    from Suc.IH [OF x(2) w this] w show ?thesis by (simp add: read_found)
  qed
  show ?case
    unfolding dfs_m.simps read_found [OF Suc.prems(2)] and_then_Inr
    by (subst fold_keys_replies [where F = "\<lambda>c x. dfs x (sofar @ [c])", OF step])
       (simp_all add: dfs.simps [of n])
qed

lemma items_m_reply:
  "wf_node (root t) \<Longrightarrow> height (root t) < d \<Longrightarrow> items_m d t = (Inr (items t), t)"
  using dfs_m_reply [of "root t" t "[]" d "[]" "[]"] by (simp add: items_m_def items_def)

lemma height_m_reply:
  "wf_node n \<Longrightarrow> walk (root t) node = Some n \<Longrightarrow> 2 * height n < d \<Longrightarrow>
   height_m d node t = (Inr (height n), t)"
proof (induction d arbitrary: node n rule: less_induct)
  case (less d)
  have "d = 0 \<or> d = Suc 0 \<or> d = Suc (Suc (d - 2))" by arith
  then consider "d = 0" | "d = Suc 0" | e where "d = Suc (Suc e)"
    by blast
  then show ?case
  proof cases
    case 1
    with less.prems show ?thesis by simp
  next
    case 2
    with less.prems(3) have "height n = 0" by simp
    then have "children n = []"
      by (cases "children n = []") (simp_all add: height_inner)
    then show ?thesis
      unfolding 2 height_m.simps read_found [OF less.prems(2)] and_then_Inr
      by (simp add: height_leaf)
  next
    case 3
    show ?thesis
    proof (cases "children n = []")
      case True
      then show ?thesis
        unfolding 3 height_m.simps read_found [OF less.prems(2)] and_then_Inr
        by (simp add: height_leaf)
    next
      case False
      let ?gm = "\<lambda>c r. and_then r (\<lambda>hs t2. and_then (read (node @ [c]) t2)
            (\<lambda>child t3. and_then (height_m e (node @ [c]) t3) (\<lambda>h t4. (Inr (hs @ [h]), t4))))"
      have step: "?gm c (Inr hs, t) = (Inr (hs @ [height x]), t)"
        if cx: "(c, x) \<in> set (children n)" for c x hs
      proof -
        from wf_lookup [OF less.prems(1) cx] have x: "map_of (children n) c = Some x" "wf_node x"
          by simp_all
        with less.prems(2) have w: "walk (root t) (node @ [c]) = Some x"
          by (simp add: walk_append)
        from height_child [OF cx] less.prems(3) 3 have "2 * height x < e" by simp
        from less.IH [OF _ x(2) w this] 3 w show ?thesis by (simp add: read_found)
      qed
      have "fold ?gm (map fst (children n)) (Inr [], t) =
            (Inr ([] @ concat (map (\<lambda>(c, x). [height x]) (children n))), t)"
        by (rule fold_keys_replies [where F = "\<lambda>c x. [height x]", OF step])
      moreover have "set (concat (map (\<lambda>(c, x). [height x]) (children n))) =
            height ` snd ` set (children n)"
        by force
      ultimately show ?thesis
        unfolding 3 height_m.simps read_found [OF less.prems(2)] and_then_Inr
        using False by (simp add: height_inner)
    qed
  qed
qed

lemma stats_m_reply:
  "wf_node (root t) \<Longrightarrow> 2 * height (root t) < d \<Longrightarrow> stats_m d t = (Inr (stats t), t)"
  using height_m_reply [of "root t" t "[]" d] by (simp add: stats_m_def stats_def)

section \<open>The claims\<close>

text \<open>
  C1. The claim asks that, among stored words of equal frequency, \<^verbatim>\<open>complete\<close> keep
  the lexicographically smaller one. The heap of the source is ordered by the pair
  (frequency, word), so its least element among equal frequencies is the smaller word,
  and that is the one \<^verbatim>\<open>heappushpop\<close> gives up. With \<^verbatim>\<open>car\<close> and \<^verbatim>\<open>cart\<close> both
  stored with frequency 3, \<^verbatim>\<open>complete("ca", 1)\<close> is \<^verbatim>\<open>["cart"]\<close>: the word returned
  ranks below the word left out, and it is not the first word of \<^verbatim>\<open>complete("ca", 2)\<close>.
  The rest of the claim holds of the code in every state with well-formed dictionaries:
  the reply has \<open>min k M\<close> words (\<open>length_complete_trie\<close>) and is sorted by
  frequency descending, then word ascending (\<open>sorted_complete_trie\<close>); what the code
  keeps on a tie is in \<open>complete_trie_keeps_greatest\<close>.
\<close>

theorem complete_tie_keeps_larger_word:
  "complete_trie tied ''ca'' 1 = [''cart''] \<and>
   score tied ''car'' = Some 3 \<and> score tied ''cart'' = Some 3 \<and> ''car'' < ''cart'' \<and>
   complete_trie tied ''ca'' 2 = [''car'', ''cart'']"
proof (intro conjI)
  show "complete_trie tied ''ca'' 1 = [''cart'']" by code_simp
  show "score tied ''car'' = Some 3" by code_simp
  show "score tied ''cart'' = Some 3" by code_simp
  show "''car'' < ''cart''" by simp
  show "complete_trie tied ''ca'' 2 = [''car'', ''cart'']" by code_simp
qed

text \<open>
  C2. The scenario of the specification, evaluated on the code. After the four
  insertions \<^verbatim>\<open>complete("ca", 2)\<close> is \<^verbatim>\<open>["cat", "cart"]\<close>, where the claim has
  \<^verbatim>\<open>["cat", "car"]\<close>: \<^verbatim>\<open>cat\<close> arrives when the heap holds \<^verbatim>\<open>car\<close> and \<^verbatim>\<open>cart\<close>, and
  takes the place of \<^verbatim>\<open>car\<close>, the least pair. The other replies are those of the claim.
\<close>

theorem scenario_replies:
  "complete_trie scenario ''ca'' 2 = [''cat'', ''cart''] \<and>
   complete_trie scenario [] 1 = [''dog''] \<and>
   fst (remove_trie scenario ''car'') = True \<and>
   complete_trie (snd (remove_trie scenario ''car'')) ''ca'' 2 = [''cat'', ''cart''] \<and>
   stats (snd (remove_trie scenario ''car'')) = (3, 4, 9)"
proof (intro conjI)
  show "complete_trie scenario ''ca'' 2 = [''cat'', ''cart'']" by code_simp
  show "complete_trie scenario [] 1 = [''dog'']" by code_simp
  show "fst (remove_trie scenario ''car'') = True" by code_simp
  show "complete_trie (snd (remove_trie scenario ''car'')) ''ca'' 2 = [''cat'', ''cart'']"
    by code_simp
  show "stats (snd (remove_trie scenario ''car'')) = (3, 4, 9)" by code_simp
qed

text \<open>
  C3. In every index reached from the empty one by a sequence of calls (insertions and
  removals change it, the queries do not), every node below the root has a child or
  ends a word, \<open>count_nodes\<close> is the number of nodes of the tree and \<open>count_words\<close> is
  the number of nodes that end a word.
\<close>

theorem pruning_and_counters:
  "no_dead (root (run cs init)) \<and>
   count_nodes (run cs init) = int (nodes (root (run cs init))) \<and>
   count_words (run cs init) = int (terminals (root (run cs init)))"
  using invariant_run [OF invariant_init, of cs] by (simp add: invariant_def)

theorem pruning_and_counters_witness:
  "(no_dead (root (run history init)) \<and>
    count_nodes (run history init) = int (nodes (root (run history init))) \<and>
    count_words (run history init) = int (terminals (root (run history init)))) \<and>
   count_nodes (run history init) = 6 \<and> count_words (run history init) = 2"
proof (rule conjI)
  show "no_dead (root (run history init)) \<and>
    count_nodes (run history init) = int (nodes (root (run history init))) \<and>
    count_words (run history init) = int (terminals (root (run history init)))"
    by (rule pruning_and_counters)
  show "count_nodes (run history init) = 6 \<and> count_words (run history init) = 2"
    by code_simp
qed

text \<open>
  C4. \<^verbatim>\<open>remove\<close> returns true exactly when the word is stored. When it returns false
  the index is unchanged. When it returns true the word is no longer stored, and a
  second removal of it returns false.
\<close>

theorem remove_correct:
  "fst (remove_trie t word) = contains t word \<and>
   (\<not> contains t word \<longrightarrow> snd (remove_trie t word) = t) \<and>
   (contains t word \<longrightarrow>
      \<not> contains (snd (remove_trie t word)) word \<and>
      \<not> fst (remove_trie (snd (remove_trie t word)) word))"
proof (intro conjI impI)
  show "fst (remove_trie t word) = contains t word" by (rule remove_flag)
  show "snd (remove_trie t word) = t" if "\<not> contains t word"
    using that by (simp add: remove_miss)
  show "\<not> contains (snd (remove_trie t word)) word" if "contains t word"
    using that not_contains_after_prune [of t word]
    by (auto simp: contains_def split: option.splits)
  then show "\<not> fst (remove_trie (snd (remove_trie t word)) word)" if "contains t word"
    using that by (simp add: remove_flag)
qed

theorem remove_correct_witness:
  "contains scenario ''car'' \<and> fst (remove_trie scenario ''car'') \<and>
   \<not> contains (snd (remove_trie scenario ''car'')) ''car'' \<and>
   \<not> fst (remove_trie (snd (remove_trie scenario ''car'')) ''car'') \<and>
   \<not> contains scenario ''ca'' \<and> \<not> fst (remove_trie scenario ''ca'') \<and>
   snd (remove_trie scenario ''ca'') = scenario"
proof -
  have h: "contains scenario ''car''" "\<not> contains scenario ''ca''"
    by code_simp+
  from remove_correct [of scenario "''car''"] remove_correct [of scenario "''ca''"] h
  show ?thesis by blast
qed

text \<open>
  C5. In every index reached from the empty one by a sequence of calls, the word count
  of \<^verbatim>\<open>stats\<close> is the length of \<^verbatim>\<open>items\<close>, and the height of \<^verbatim>\<open>stats\<close> is the
  length of the longest word of \<^verbatim>\<open>items\<close>, or 0 when \<^verbatim>\<open>items\<close> is empty.
\<close>

theorem stats_consistent:
  "fst (stats (run cs init)) = int (length (items (run cs init))) \<and>
   fst (snd (stats (run cs init))) = longest (items (run cs init))"
proof -
  have inv: "invariant (run cs init)" by (rule invariant_run [OF invariant_init])
  then have "no_dead (root (run cs init))" by (simp add: invariant_def)
  then have "height (root (run cs init)) = longest (items (run cs init))"
    by (rule height_longest)
  moreover from inv have "count_words (run cs init) = int (length (items (run cs init)))"
    by (simp add: invariant_def items_def length_dfs)
  ultimately show ?thesis by (simp add: stats_def)
qed

theorem stats_consistent_witness:
  "(fst (stats (run history init)) = int (length (items (run history init))) \<and>
    fst (snd (stats (run history init))) = longest (items (run history init))) \<and>
   stats (run history init) = (2, 3, 6) \<and>
   items (run history init) = [(''car'', 2), (''do'', 1)]"
proof (rule conjI)
  show "fst (stats (run history init)) = int (length (items (run history init))) \<and>
    fst (snd (stats (run history init))) = longest (items (run history init))"
    by (rule stats_consistent)
  show "stats (run history init) = (2, 3, 6) \<and>
    items (run history init) = [(''car'', 2), (''do'', 1)]"
    by code_simp
qed

text \<open>
  C6. When the word is already stored, \<^verbatim>\<open>insert\<close> sets its frequency to the new one
  and leaves both counters as they were; the frequency stored for any other word, and
  whether it is stored, do not change.
\<close>

theorem reinsert_updates_score:
  "contains t word \<Longrightarrow>
   score (insert_trie t word f) word = Some f \<and>
   count_words (insert_trie t word f) = count_words t \<and>
   count_nodes (insert_trie t word f) = count_nodes t \<and>
   (\<forall>w. w \<noteq> word \<longrightarrow> score (insert_trie t word f) w = score t w)"
  using counters_insert_present [of t word f] by (simp add: score_insert_trie)

theorem reinsert_updates_score_witness:
  "contains scenario ''car'' \<and>
   score scenario ''car'' = Some 3 \<and>
   score (insert_trie scenario ''car'' 7) ''car'' = Some 7 \<and>
   count_words (insert_trie scenario ''car'' 7) = count_words scenario \<and>
   count_nodes (insert_trie scenario ''car'' 7) = count_nodes scenario \<and>
   score (insert_trie scenario ''car'' 7) ''cart'' = score scenario ''cart''"
proof -
  have h: "contains scenario ''car''" "score scenario ''car'' = Some 3"
    by code_simp+
  from reinsert_updates_score [OF h(1), of 7] h show ?thesis by simp
qed

text \<open>
  C7. After \<^verbatim>\<open>insert\<close> of a word (the empty word included) with a frequency, the word
  is stored and \<^verbatim>\<open>items\<close> lists exactly one pair with that word, which carries that
  frequency. The hypothesis is the distinctness of the keys of each dictionary, which
  holds of every Python dictionary.
\<close>

theorem insert_then_listed:
  "wf_node (root t) \<Longrightarrow>
   contains (insert_trie t word f) word \<and>
   filter (\<lambda>p. fst p = word) (items (insert_trie t word f)) = [(word, f)]"
proof -
  assume "wf_node (root t)"
  then have "wf_node (root (insert_trie t word f))"
    by (simp add: root_insert_trie insert_node_wf)
  from items_filter [OF this, of word] show ?thesis
    by (simp add: contains_score score_insert_trie)
qed

theorem insert_then_listed_witness:
  "wf_node (root scenario) \<and>
   contains (insert_trie scenario [] 2) [] \<and>
   filter (\<lambda>p. fst p = []) (items (insert_trie scenario [] 2)) = [([], 2)] \<and>
   contains (insert_trie scenario ''car'' 8) ''car'' \<and>
   filter (\<lambda>p. fst p = ''car'') (items (insert_trie scenario ''car'' 8)) = [(''car'', 8)]"
proof -
  have h: "wf_node (root scenario)"
    by code_simp
  from insert_then_listed [OF h, of "[]" 2] insert_then_listed [OF h, of "''car''" 8] h
  show ?thesis by blast
qed

text \<open>
  C8. As it is stated, for every index, the claim fails: \<^verbatim>\<open>complete\<close> has no exit for
  \<open>k \<le> 0\<close> and \<^verbatim>\<open>explore\<close> calls itself once for every symbol below the prefix, so
  on an index that holds a word of 1000 symbols \<^verbatim>\<open>complete("", 0)\<close> raises
  \<^verbatim>\<open>RecursionError\<close>, even with all of the 1000 nested calls of the default limit
  still allowed.
\<close>

theorem deep_word_raises:
  "(0::int) \<le> 0 \<and>
   complete_m 1000 (insert_trie init (replicate 1000 (CHR ''a'')) 1) [] 0 =
     (Inl RecursionError, insert_trie init (replicate 1000 (CHR ''a'')) 1) \<and>
   complete_m 1000 (insert_trie init (replicate 1000 (CHR ''a'')) 1) [] 0 \<noteq>
     (Inr [], insert_trie init (replicate 1000 (CHR ''a'')) 1)"
proof -
  let ?t = "insert_trie init (replicate 1000 (CHR ''a'')) 1"
  have r: "root ?t = fst (insert_node new_node (replicate 1000 (CHR ''a'')) 1)"
    by (simp add: root_insert_trie init_def)
  have "wf_node (root ?t)"
    unfolding r by (rule insert_node_wf) simp
  moreover have "walk (root ?t) [] = Some (root ?t)" by simp
  moreover have "1000 \<le> height (root ?t)"
    unfolding r height_insert_new by simp
  ultimately have "complete_m 1000 ?t [] 0 = (Inl RecursionError, ?t)"
    by (rule complete_m_raises)
  then show ?thesis by simp
qed

text \<open>
  C8, amended. \<^verbatim>\<open>complete\<close> replies with the empty list, without raising, and leaves
  the index as it was, when \<open>k \<le> 0\<close>, when the walk along the prefix fails, and when no
  stored word extends the prefix, provided the interpreter still allows more nested
  calls than the tree below the end of the prefix is high (one call when the walk
  fails).
\<close>

theorem complete_empty_within_bound:
  assumes "k \<le> 0 \<or> walk (root t) prefix = None \<or> (\<forall>w. \<not> contains t (prefix @ w))"
    and "depth_below t prefix < d"
  shows "complete_m d t prefix k = (Inr [], t)"
  using complete_m_reply [OF assms(2), of k] complete_trie_empty [OF assms(1)] by simp

theorem complete_empty_within_bound_witness:
  "(((0::int) \<le> 0 \<or> walk (root scenario) ''ca'' = None \<or> (\<forall>w. \<not> contains scenario (''ca'' @ w))) \<and>
    depth_below scenario ''ca'' < 3 \<and> complete_m 3 scenario ''ca'' 0 = (Inr [], scenario)) \<and>
   (((2::int) \<le> 0 \<or> walk (root scenario) ''cow'' = None \<or> (\<forall>w. \<not> contains scenario (''cow'' @ w))) \<and>
    depth_below scenario ''cow'' < 1 \<and> complete_m 1 scenario ''cow'' 2 = (Inr [], scenario)) \<and>
   (((2::int) \<le> 0 \<or> walk (root init) [] = None \<or> (\<forall>w. \<not> contains init ([] @ w))) \<and>
    depth_below init [] < 1 \<and> complete_m 1 init [] 2 = (Inr [], init))"
proof (intro conjI)
  show a1: "(0::int) \<le> 0 \<or> walk (root scenario) ''ca'' = None \<or> (\<forall>w. \<not> contains scenario (''ca'' @ w))"
    by simp
  show a2: "depth_below scenario ''ca'' < 3"
    by code_simp
  show "complete_m 3 scenario ''ca'' 0 = (Inr [], scenario)"
    by (rule complete_empty_within_bound [OF a1 a2])
  have "walk (root scenario) ''cow'' = None"
    by code_simp
  then show b1: "(2::int) \<le> 0 \<or> walk (root scenario) ''cow'' = None \<or> (\<forall>w. \<not> contains scenario (''cow'' @ w))"
    by simp
  show b2: "depth_below scenario ''cow'' < 1"
    by code_simp
  show "complete_m 1 scenario ''cow'' 2 = (Inr [], scenario)"
    by (rule complete_empty_within_bound [OF b1 b2])
  have "\<forall>w. \<not> contains init ([] @ w)"
    by (simp add: contains_def init_def walk_new_node)
  then show c1: "(2::int) \<le> 0 \<or> walk (root init) [] = None \<or> (\<forall>w. \<not> contains init ([] @ w))"
    by simp
  show c2: "depth_below init [] < 1"
    by code_simp
  show "complete_m 1 init [] 2 = (Inr [], init)"
    by (rule complete_empty_within_bound [OF c1 c2])
qed

text \<open>
  C9. \<^verbatim>\<open>contains\<close>, \<^verbatim>\<open>complete\<close>, \<^verbatim>\<open>stats\<close> and \<^verbatim>\<open>items\<close> are read-only: for
  every index, all arguments and every bound on the nested calls, the index after the
  call is the index before it, whether the call returns or raises.
\<close>

theorem queries_read_only:
  "snd (contains_m d t word) = t \<and> snd (complete_m d t prefix k) = t \<and>
   snd (stats_m d t) = t \<and> snd (items_m d t) = t"
  by (simp add: contains_m_state complete_m_state stats_m_state items_m_state)

theorem queries_read_only_witness:
  "(snd (contains_m 9 scenario ''car'') = scenario \<and> snd (complete_m 9 scenario ''ca'' 2) = scenario \<and>
    snd (stats_m 9 scenario) = scenario \<and> snd (items_m 9 scenario) = scenario) \<and>
   fst (contains_m 9 scenario ''car'') = Inr True \<and>
   fst (complete_m 9 scenario ''ca'' 2) = Inr [''cat'', ''cart''] \<and>
   fst (stats_m 9 scenario) = Inr (4, 4, 9) \<and>
   fst (items_m 9 scenario) = Inr [(''cat'', 5), (''car'', 3), (''cart'', 3), (''dog'', 9)] \<and>
   fst (stats_m 8 scenario) = Inl RecursionError \<and> snd (stats_m 8 scenario) = scenario"
proof (intro conjI)
  show "snd (contains_m 9 scenario ''car'') = scenario"
    "snd (complete_m 9 scenario ''ca'' 2) = scenario"
    "snd (stats_m 9 scenario) = scenario"
    "snd (items_m 9 scenario) = scenario"
    using queries_read_only [of 9 scenario "''car''" "''ca''" 2] by simp_all
  show "fst (stats_m 8 scenario) = Inl RecursionError" by code_simp
  show "snd (stats_m 8 scenario) = scenario"
    using queries_read_only [of 8 scenario "''car''" "''ca''" 2] by simp
  show "fst (contains_m 9 scenario ''car'') = Inr True" by code_simp
  show "fst (complete_m 9 scenario ''ca'' 2) = Inr [''cat'', ''cart'']" by code_simp
  show "fst (stats_m 9 scenario) = Inr (4, 4, 9)" by code_simp
  show "fst (items_m 9 scenario) = Inr [(''cat'', 5), (''car'', 3), (''cart'', 3), (''dog'', 9)]"
    by code_simp
qed

text \<open>
  C10. When the empty word is stored, \<^verbatim>\<open>remove\<close> of it returns true; the root stays,
  with its children as they were, its flag cleared and its frequency 0; \<open>count_words\<close>
  goes down by one and \<open>count_nodes\<close> is unchanged; every other word is stored as
  before, with the same frequency.
\<close>

theorem remove_empty_word:
  "contains t [] \<Longrightarrow>
   remove_trie t [] =
     (True, \<lparr>root = TrieNode (children (root t)) False 0,
             count_words = count_words t - 1, count_nodes = count_nodes t\<rparr>) \<and>
   (\<forall>w. w \<noteq> [] \<longrightarrow> score (snd (remove_trie t [])) w = score t w)"
proof -
  assume "contains t []"
  then have r: "remove_trie t [] =
     (True, \<lparr>root = TrieNode (children (root t)) False 0,
             count_words = count_words t - 1, count_nodes = count_nodes t\<rparr>)"
    by (simp add: contains_def remove_trie_def)
  have "score (snd (remove_trie t [])) w = score t w" if "w \<noteq> []" for w
    using that unfolding r by (cases w) (simp_all add: score_def score_at_Cons)
  with r show ?thesis by simp
qed

theorem remove_empty_word_witness:
  "contains (insert_trie scenario [] 4) [] \<and>
   remove_trie (insert_trie scenario [] 4) [] =
     (True, \<lparr>root = TrieNode (children (root (insert_trie scenario [] 4))) False 0,
             count_words = count_words (insert_trie scenario [] 4) - 1,
             count_nodes = count_nodes (insert_trie scenario [] 4)\<rparr>) \<and>
   score (snd (remove_trie (insert_trie scenario [] 4) [])) ''dog'' =
     score (insert_trie scenario [] 4) ''dog''"
proof -
  have h: "contains (insert_trie scenario [] 4) []"
    by code_simp
  have d: "''dog'' \<noteq> []"
    by simp
  from remove_empty_word [OF h] h d show ?thesis by blast
qed

end
